theory Spec2Isabelle
  imports Complex_Main "HOL-Library.Word"
begin

unbundle bit_operations_syntax

section \<open>Kilterboard Bluetooth framing: a model of \<open>script.js\<close>\<close>

text \<open>
  The protocol core of \<open>script.js\<close> (lines 8--107) is embedded function by function.
  JavaScript arrays of numbers are lists of \<open>int\<close> (every number the code stores in an
  array is integer valued), a \<open>Uint8Array\<close> is a list of 8-bit words, strings are
  \<open>string\<close> (code units below 256), and an exception is the \<open>Inl\<close> branch of a sum.
\<close>

subsection \<open>Constants (lines 8--13)\<close>

definition MAX_BLUETOOTH_MESSAGE_SIZE :: int where
  "MAX_BLUETOOTH_MESSAGE_SIZE = 20"

definition MESSAGE_BODY_MAX_LENGTH :: nat where
  "MESSAGE_BODY_MAX_LENGTH = 255"

definition PACKET_MIDDLE :: int where
  "PACKET_MIDDLE = 81"

definition PACKET_FIRST :: int where
  "PACKET_FIRST = 82"

definition PACKET_LAST :: int where
  "PACKET_LAST = 83"

definition PACKET_ONLY :: int where
  "PACKET_ONLY = 84"

subsection \<open>JavaScript numbers and exceptions\<close>

text \<open>
  A JavaScript number is \<open>NaN\<close>, an infinity or a finite value. The finite values the
  code computes are small integers divided by 32 or 64, which a double holds exactly, so
  finite values are rationals. \<open>-0\<close> is not kept apart from \<open>0\<close>: the code only ever
  passes it to \<open>ToInt32\<close>, which maps both to 0.
\<close>

datatype number = NaN | PosInfinity | NegInfinity | Fin rat

datatype exn = TypeError | Error string

text \<open>\<open>ToInt32\<close> of ECMAScript: truncate towards zero, then wrap to 32 bits.\<close>

definition truncate :: "rat \<Rightarrow> int" where
  "truncate q = (if q < 0 then - \<lfloor>- q\<rfloor> else \<lfloor>q\<rfloor>)"

fun ToInt32 :: "number \<Rightarrow> 32 word" where
  "ToInt32 (Fin q) = word_of_int (truncate q)"
| "ToInt32 _ = 0"

text \<open>\<open>ToInt32\<close> of an integer-valued number.\<close>

definition int32 :: "int \<Rightarrow> 32 word" where
  "int32 k = ToInt32 (Fin (of_int k))"

text \<open>The operator \<open>/\<close> with a positive finite divisor (the code divides by 32 and 64).\<close>

fun div_by :: "number \<Rightarrow> rat \<Rightarrow> number" where
  "div_by (Fin q) d = Fin (q / d)"
| "div_by x d = x"

text \<open>
  A value read from a lookup table or bound by destructuring: \<open>undefined\<close>, a function or
  object inherited from \<open>Object.prototype\<close>, or a primitive of the expected type (a number
  of \<open>placementPositions\<close>, a string of \<open>colors\<close>). An inherited value is truthy,
  converts to \<open>NaN\<close> and has no \<open>substring\<close> method.
\<close>

datatype 'a val = Undefined | Inherited | Val 'a

text \<open>\<open>Number(v)\<close> of a looked-up property: \<open>undefined\<close>, a function and an object all
  become \<open>NaN\<close>.\<close>

fun Number :: "number val \<Rightarrow> number" where
  "Number Undefined = NaN"
| "Number Inherited = NaN"
| "Number (Val x) = x"

subsection \<open>String primitives\<close>

text \<open>\<open>s.substring(a, b)\<close> for non-negative integer arguments.\<close>

definition substring :: "string \<Rightarrow> nat \<Rightarrow> nat \<Rightarrow> string" where
  "substring s a b =
     (let a' = min a (length s); b' = min b (length s);
          from = min a' b'; to = max a' b'
      in take (to - from) (drop from s))"

text \<open>\<open>s.split(c)\<close> with a one-character separator: never empty, \<open>"".split(c) = [""]\<close>.\<close>

fun split :: "string \<Rightarrow> char \<Rightarrow> string list" where
  "split [] sep = [[]]"
| "split (c # cs) sep =
     (if c = sep then [] # split cs sep
      else (case split cs sep of
              [] \<Rightarrow> [[c]]
            | w # ws \<Rightarrow> (c # w) # ws))"

text \<open>\<open>parseInt(s, 16)\<close>: skip white space, read a sign, skip \<open>0x\<close>, read the longest
  prefix of hexadecimal digits; no digit gives \<open>NaN\<close>.\<close>

definition is_whitespace :: "char \<Rightarrow> bool" where
  "is_whitespace c = (of_char c \<in> {9, 10, 11, 12, 13, 32, 160 :: nat})"

definition hex_digit :: "char \<Rightarrow> nat option" where
  "hex_digit c =
     (let n = of_char c :: nat
      in if 48 \<le> n \<and> n \<le> 57 then Some (n - 48)
         else if 97 \<le> n \<and> n \<le> 102 then Some (n - 87)
         else if 65 \<le> n \<and> n \<le> 70 then Some (n - 55)
         else None)"

fun takeDigits :: "string \<Rightarrow> nat list" where
  "takeDigits [] = []"
| "takeDigits (c # cs) =
     (case hex_digit c of None \<Rightarrow> [] | Some d \<Rightarrow> d # takeDigits cs)"

definition mathInt :: "nat list \<Rightarrow> nat" where
  "mathInt ds = foldl (\<lambda>acc d. 16 * acc + d) 0 ds"

definition parseInt16 :: "string \<Rightarrow> number" where
  "parseInt16 s =
     (let s1 = dropWhile is_whitespace s;
          neg = (s1 \<noteq> [] \<and> hd s1 = CHR ''-'');
          s2 = (if s1 \<noteq> [] \<and> (hd s1 = CHR ''-'' \<or> hd s1 = CHR ''+'') then tl s1 else s1);
          s3 = (if take 2 s2 = ''0x'' \<or> take 2 s2 = ''0X'' then drop 2 s2 else s2);
          ds = takeDigits s3
      in if ds = [] then NaN
         else Fin (of_int ((if neg then - 1 else 1) * int (mathInt ds))))"

subsection \<open>checksum (lines 21--27)\<close>

definition checksum :: "int list \<Rightarrow> int" where
  "checksum data =
     (let i = foldl (\<lambda>i v. sint (int32 (i + v) AND 255)) 0 data
      in sint (NOT (int32 i) AND 255))"

subsection \<open>wrapBytes (lines 29--35)\<close>

definition wrapBytes :: "int list \<Rightarrow> int list" where
  "wrapBytes data =
     (if length data > MESSAGE_BODY_MAX_LENGTH then []
      else [1, int (length data), checksum data, 2] @ data @ [3])"

subsection \<open>encodePosition, encodeColor, encodePositionAndColor (lines 37--60)\<close>

definition encodePosition :: "number \<Rightarrow> int list" where
  "encodePosition position =
     (let position1 = sint (ToInt32 position AND 255);
          position2 = sint (signed_drop_bit 8 (ToInt32 position AND 65280))
      in [position1, position2])"

text \<open>\<open>color.substring\<close> throws a \<open>TypeError\<close> when \<open>color\<close> is \<open>undefined\<close> and when it
  is a function or object, which has no such method.\<close>

fun encodeColor :: "string val \<Rightarrow> exn + int" where
  "encodeColor Undefined = Inl TypeError"
| "encodeColor Inherited = Inl TypeError"
| "encodeColor (Val color) =
     (let substring1 = substring color 0 2;
          substring2 = substring color 2 4;
          parsedSubstring = div_by (parseInt16 substring1) 32;
          parsedSubstring2 = div_by (parseInt16 substring2) 32;
          parsedResult = push_bit 5 (ToInt32 parsedSubstring) OR push_bit 2 (ToInt32 parsedSubstring2);
          substring3 = substring color 4 6;
          parsedSubstring3 = div_by (parseInt16 substring3) 64;
          finalParsedResult = parsedResult OR ToInt32 parsedSubstring3
      in Inr (sint finalParsedResult))"

definition encodePositionAndColor :: "number \<Rightarrow> string val \<Rightarrow> exn + int list" where
  "encodePositionAndColor position ledColor =
     (case encodeColor ledColor of
        Inl e \<Rightarrow> Inl e
      | Inr c \<Rightarrow> Inr (encodePosition position @ [c]))"

subsection \<open>getBluetoothPacket (lines 62--95)\<close>

text \<open>
  \<open>placementPositions\<close> and \<open>colors\<close> are plain objects, as the object literal of the
  data file and the \<open>{}\<close> that the caller passes. Their own properties are a map from the
  placement id to its number and from the role name to a colour string. Reading
  \<open>obj[key]\<close> finds the own property, else the property of that name of
  \<open>Object.prototype\<close> (a function, or the prototype object itself for \<open>__proto__\<close>), else
  \<open>undefined\<close>. An \<open>undefined\<close> key reads the property named \<open>"undefined"\<close>.
\<close>

type_synonym positions = "string \<rightharpoonup> number"
type_synonym colors = "string \<rightharpoonup> string"

definition Object_prototype :: "string list" where
  "Object_prototype =
     [''constructor'', ''__defineGetter__'', ''__defineSetter__'', ''hasOwnProperty'',
      ''__lookupGetter__'', ''__lookupSetter__'', ''isPrototypeOf'', ''propertyIsEnumerable'',
      ''toString'', ''valueOf'', ''__proto__'', ''toLocaleString'']"

definition property :: "(string \<rightharpoonup> 'a) \<Rightarrow> string \<Rightarrow> 'a val" where
  "property obj key =
     (case obj key of
        Some v \<Rightarrow> Val v
      | None \<Rightarrow> if key \<in> set Object_prototype then Inherited else Undefined)"

definition key_of :: "string option \<Rightarrow> string" where
  "key_of k = (case k of None \<Rightarrow> ''undefined'' | Some s \<Rightarrow> s)"

text \<open>Array destructuring: an index past the end gives \<open>undefined\<close>.\<close>

definition element :: "'a list \<Rightarrow> nat \<Rightarrow> 'a option" where
  "element xs i = (if i < length xs then Some (xs ! i) else None)"

text \<open>A destructured variable as a value.\<close>

definition value_of :: "'a option \<Rightarrow> 'a val" where
  "value_of v = (case v of None \<Rightarrow> Undefined | Some x \<Rightarrow> Val x)"

text \<open>\<open>colors[role] || role\<close>: \<open>undefined\<close> and the empty string are falsy, an inherited
  function or object is truthy.\<close>

definition color_or_role :: "colors \<Rightarrow> string option \<Rightarrow> string val" where
  "color_or_role colors role =
     (case property colors (key_of role) of
        Undefined \<Rightarrow> value_of role
      | Inherited \<Rightarrow> Inherited
      | Val c \<Rightarrow> if c = [] then value_of role else Val c)"

text \<open>The state of the loop is \<open>(resultArray, tempArray)\<close>.\<close>

type_synonym buffers = "int list list \<times> int list"

definition frame_step :: "positions \<Rightarrow> colors \<Rightarrow> buffers \<Rightarrow> string \<Rightarrow> exn + buffers" where
  "frame_step placementPositions colors st frame =
     (case st of (resultArray, tempArray) \<Rightarrow>
        if length frame > 0 then
          (let parts = split frame CHR ''r'';
               placement = element parts 0;
               role = element parts 1
           in case encodePositionAndColor
                     (Number (property placementPositions (key_of placement)))
                     (color_or_role colors role) of
                Inl e \<Rightarrow> Inl e
              | Inr encodedFrame \<Rightarrow>
                  if length tempArray + 3 > MESSAGE_BODY_MAX_LENGTH
                  then Inr (resultArray @ [tempArray], [PACKET_MIDDLE] @ encodedFrame)
                  else Inr (resultArray, tempArray @ encodedFrame))
        else Inr st)"

text \<open>\<open>forEach\<close> with a callback that may throw: the first exception ends the loop.\<close>

fun forEach :: "('s \<Rightarrow> 'a \<Rightarrow> exn + 's) \<Rightarrow> 's \<Rightarrow> 'a list \<Rightarrow> exn + 's" where
  "forEach f st [] = Inr st"
| "forEach f st (x # xs) =
     (case f st x of Inl e \<Rightarrow> Inl e | Inr st' \<Rightarrow> forEach f st' xs)"

text \<open>\<open>arr[0] = v\<close>; on an empty array the assignment extends it.\<close>

definition set_first :: "int list \<Rightarrow> int \<Rightarrow> int list" where
  "set_first arr v = (case arr of [] \<Rightarrow> [v] | _ # rest \<Rightarrow> v # rest)"

text \<open>Lines 82--87. The packets of \<open>resultArray\<close> are distinct arrays, so the two
  assignments of the second branch are two list updates.\<close>

definition set_role_markers :: "int list list \<Rightarrow> int list list" where
  "set_role_markers resultArray =
     (if length resultArray = 1
      then resultArray[0 := set_first (resultArray ! 0) PACKET_ONLY]
      else if length resultArray > 1
      then (let r1 = resultArray[0 := set_first (resultArray ! 0) PACKET_FIRST];
                n = length r1 - 1
            in r1[n := set_first (r1 ! n) PACKET_LAST])
      else resultArray)"

text \<open>Lines 63--87: \<open>resultArray\<close> as it stands before the frames are wrapped.\<close>

definition logical_packets :: "string \<Rightarrow> positions \<Rightarrow> colors \<Rightarrow> exn + int list list" where
  "logical_packets frames placementPositions colors =
     (case forEach (frame_step placementPositions colors) ([], [PACKET_MIDDLE])
             (split frames CHR ''p'') of
        Inl e \<Rightarrow> Inl e
      | Inr (resultArray, tempArray) \<Rightarrow> Inr (set_role_markers (resultArray @ [tempArray])))"

definition Uint8Array_from :: "int list \<Rightarrow> 8 word list" where
  "Uint8Array_from xs = map word_of_int xs"

definition getBluetoothPacket :: "string \<Rightarrow> positions \<Rightarrow> colors \<Rightarrow> exn + 8 word list" where
  "getBluetoothPacket frames placementPositions colors =
     (case logical_packets frames placementPositions colors of
        Inl e \<Rightarrow> Inl e
      | Inr resultArray \<Rightarrow> Inr (Uint8Array_from (concat (map wrapBytes resultArray))))"

subsection \<open>splitEvery (lines 97--107)\<close>

text \<open>\<open>list.slice(s, e)\<close> for non-negative integer arguments.\<close>

definition array_slice :: "'a list \<Rightarrow> nat \<Rightarrow> nat \<Rightarrow> 'a list" where
  "array_slice list s e =
     (let k = min s (length list); final = min e (length list)
      in take (final - k) (drop k list))"

text \<open>The \<open>while\<close> loop, for an integer chunk size (the caller passes 20). It is entered
  only after the test \<open>n <= 0\<close> has not thrown; the guard \<open>0 < n\<close> records that, and is
  what makes the loop end.\<close>

function splitEvery_loop :: "nat \<Rightarrow> 'a list \<Rightarrow> nat \<Rightarrow> 'a list list \<Rightarrow> 'a list list" where
  "splitEvery_loop n list idx result =
     (if 0 < n \<and> idx < length list
      then splitEvery_loop n list (idx + n) (result @ [array_slice list idx (idx + n)])
      else result)"
  by pat_completeness auto
termination
  by (relation "measure (\<lambda>(n, list, idx, result). length list - idx)") auto

declare splitEvery_loop.simps [simp del]

definition splitEvery :: "int \<Rightarrow> 'a list \<Rightarrow> exn + 'a list list" where
  "splitEvery n list =
     (if n \<le> 0 then Inl (Error ''First argument to splitEvery must be a positive integer'')
      else Inr (splitEvery_loop (nat n) list 0 []))"

text \<open>\<open>splitMessages\<close> of \<open>illuminateClimb\<close> (lines 122--125).\<close>

definition splitMessages :: "8 word list \<Rightarrow> exn + 8 word list list" where
  "splitMessages buffer = splitEvery MAX_BLUETOOTH_MESSAGE_SIZE buffer"

subsection \<open>Vocabulary of the properties\<close>

definition is_byte :: "int \<Rightarrow> bool" where
  "is_byte x = (0 \<le> x \<and> x \<le> 255)"

definition bytes :: "int list \<Rightarrow> bool" where
  "bytes d = list_all is_byte d"

fun decode_le16 :: "int list \<Rightarrow> int" where
  "decode_le16 [b0, b1] = b0 + 256 * b1"
| "decode_le16 _ = 0"

text \<open>The frames that the loop of \<open>getBluetoothPacket\<close> encodes: one per (position, colour)
  pair of the input.\<close>

definition pairs :: "string \<Rightarrow> string list" where
  "pairs frames = filter (\<lambda>frame. length frame > 0) (split frames CHR ''p'')"

text \<open>Every pair has a colour string to encode (its role, or the string that \<open>colors\<close>
  holds for it), so that \<open>color.substring\<close> does not throw.\<close>

fun is_string :: "string val \<Rightarrow> bool" where
  "is_string (Val _) = True"
| "is_string _ = False"

definition colored :: "colors \<Rightarrow> string \<Rightarrow> bool" where
  "colored colors frames =
     list_all (\<lambda>frame. is_string (color_or_role colors (element (split frame CHR ''r'') 1)))
       (pairs frames)"

text \<open>What holds of \<open>(resultArray, tempArray)\<close> between two iterations of the loop.\<close>

definition splitter_inv :: "buffers \<Rightarrow> bool" where
  "splitter_inv st =
     (case st of (resultArray, tempArray) \<Rightarrow>
        list_all (\<lambda>p. length p = 253 \<and> hd p = PACKET_MIDDLE \<and> bytes p) resultArray \<and>
        tempArray \<noteq> [] \<and> hd tempArray = PACKET_MIDDLE \<and> bytes tempArray \<and>
        length tempArray mod 3 = 1 \<and> length tempArray \<le> 253 \<and>
        (resultArray \<noteq> [] \<longrightarrow> 4 \<le> length tempArray))"

section \<open>Properties\<close>

subsection \<open>32-bit operators on integers\<close>

lemma truncate_of_int: "truncate (of_int k) = k"
  by (simp add: truncate_def)

lemma int32_eq: "int32 k = word_of_int k"
  by (simp add: int32_def truncate_of_int)

lemma mask8: "(255 :: 32 word) = mask 8" by (simp add: mask_eq_exp_minus_1)

lemma sint_small: 
  assumes "uint (w :: 32 word) < 2 ^ 31" shows "sint w = uint w"
proof -
  have "- (2 ^ 31) \<le> (0::int)" by simp
  also have "0 \<le> uint w" by simp
  finally have "- (2 ^ 31) \<le> uint w" .
  then have "signed_take_bit 31 (uint w) = uint w"
    using assms by (rule signed_take_bit_int_eq_self)
  then show ?thesis by (simp add: sint_uint)
qed

lemma uint_wi32: "uint (word_of_int k :: 32 word) = take_bit 32 k"
  by (simp add: uint_word_of_int_eq)

lemma uint_take_bit8: "uint (take_bit 8 (word_of_int k :: 32 word)) = k mod 256"
proof -
  have "uint (take_bit 8 (word_of_int k :: 32 word)) = take_bit 8 (take_bit 32 k)"
    by (simp only: unsigned_take_bit_eq uint_wi32)
  also have "\<dots> = take_bit 8 k" by simp
  also have "\<dots> = k mod 256" by (simp add: take_bit_eq_mod)
  finally show ?thesis .
qed

lemma sint_and_255: "sint ((word_of_int k :: 32 word) AND 255) = k mod 256"
proof -
  have e: "(word_of_int k :: 32 word) AND 255 = take_bit 8 (word_of_int k)"
    by (simp only: mask8 take_bit_eq_mask)
  have "sint (take_bit 8 (word_of_int k :: 32 word)) = uint (take_bit 8 (word_of_int k :: 32 word))"
    by (rule sint_small) (simp only: uint_take_bit8, simp)
  with e show ?thesis by (simp only: uint_take_bit8)
qed

lemma sint_not_and_255: "sint (NOT (word_of_int s :: 32 word) AND 255) = 255 - s mod 256"
proof -
  have "NOT (word_of_int s :: 32 word) = word_of_int (NOT s)"
    by (simp add: word_wi_log_defs)
  then have "sint (NOT (word_of_int s :: 32 word) AND 255) = (NOT s) mod 256"
    by (simp only: sint_and_255)
  also have "\<dots> = take_bit 8 (NOT s)" by (simp add: take_bit_eq_mod)
  also have "\<dots> = mask 8 - take_bit 8 s" by (rule take_bit_not_eq_mask_diff)
  also have "\<dots> = 255 - s mod 256" by (simp add: take_bit_eq_mod mask_eq_exp_minus_1)
  finally show ?thesis .
qed


lemma sint_shift_65280: "sint (signed_drop_bit 8 ((word_of_int k :: 32 word) AND 65280)) = (k div 256) mod 256"
proof -
  let ?w = "(word_of_int k :: 32 word) AND 65280"
  have u: "uint ?w = take_bit 32 k AND 65280"
    by (simp add: uint_and uint_wi32)
  have "take_bit 32 k AND 65280 \<le> 65280"
    by (rule AND_upper2) simp
  then have "uint ?w < 2 ^ 31" by (simp only: u) simp
  then have s: "sint ?w = take_bit 32 k AND 65280"
    by (simp only: sint_small u)
  have "sint (signed_drop_bit 8 ?w) = drop_bit 8 (take_bit 32 k AND 65280)"
    by (simp only: sint_signed_drop_bit_eq s)
  also have "\<dots> = drop_bit 8 (take_bit 32 k) AND drop_bit 8 65280"
    by (simp only: drop_bit_and)
  also have "drop_bit 8 (65280 :: int) = mask 8"
    by (simp add: drop_bit_eq_div mask_eq_exp_minus_1)
  also have "drop_bit 8 (take_bit 32 k) AND mask 8 = take_bit 8 (drop_bit 8 (take_bit 32 k))"
    by (simp only: take_bit_eq_mask)
  also have "\<dots> = take_bit 8 (drop_bit 8 k)"
    by (simp add: drop_bit_take_bit)
  also have "\<dots> = (k div 256) mod 256"
    by (simp add: take_bit_eq_mod drop_bit_eq_div)
  finally show ?thesis .
qed

lemma sint_rgb332: 
  assumes "0 \<le> r" "r < 8" "0 \<le> g" "g < 8" "0 \<le> b" "b < 4"
  shows "sint ((push_bit 5 (word_of_int r :: 32 word) OR push_bit 2 (word_of_int g)) OR word_of_int b) = (push_bit 5 r OR push_bit 2 g) OR b"
proof -
  let ?v = "(push_bit 5 r OR push_bit 2 g) OR b"
  have w: "(push_bit 5 (word_of_int r :: 32 word) OR push_bit 2 (word_of_int g)) OR word_of_int b = word_of_int ?v"
    by (simp only: push_bit_of_int word_wi_log_defs)
  have r5: "push_bit 5 r = r * 32" and g2: "push_bit 2 g = g * 4"
    by (simp_all add: push_bit_eq_mult)
  have nr: "0 \<le> push_bit 5 r" and ng: "0 \<le> push_bit 2 g"
    using assms by simp_all
  have ab: "push_bit 5 r OR push_bit 2 g < 2 ^ 8"
    by (rule OR_upper) (use assms nr in \<open>simp_all add: r5 g2\<close>)
  have ub: "?v < 2 ^ 8"
  proof (rule OR_upper)
    show "0 \<le> push_bit 5 r OR push_bit 2 g" using nr ng by simp
    show "push_bit 5 r OR push_bit 2 g < 2 ^ 8" by (fact ab)
    show "b < 2 ^ 8" using assms by simp
  qed
  have nn: "0 \<le> ?v" using nr ng assms by simp
  have "uint (word_of_int ?v :: 32 word) = ?v"
    unfolding uint_wi32 by (rule take_bit_int_eq_self) (use nn ub in simp_all)
  moreover from this have "sint (word_of_int ?v :: 32 word) = uint (word_of_int ?v :: 32 word)"
    by (intro sint_small) (use ub in simp)
  ultimately show ?thesis by (simp only: w)
qed

subsection \<open>checksum and wrapBytes\<close>

lemma checksum_step: "sint (int32 (i + v) AND 255) = (i + v) mod 256"
  by (simp only: int32_eq sint_and_255)

lemma checksum_body: "(\<lambda>i v. sint (int32 (i + v) AND 255)) = (\<lambda>i v. (i + v) mod 256)"
  by (intro ext) (rule checksum_step)

lemma foldl_add_mod:
  "foldl (\<lambda>i v. (i + v) mod 256) a d = (if d = [] then a else (a + sum_list d) mod (256 :: int))"
proof (induction d arbitrary: a)
  case Nil
  then show ?case by simp
next
  case (Cons x xs)
  show ?case
    by (simp add: Cons.IH mod_add_left_eq add.assoc)
qed

lemma checksum_eq: "checksum d = 255 - sum_list d mod 256"
proof -
  have "checksum d = 255 - foldl (\<lambda>i v. (i + v) mod 256) 0 d mod 256"
    unfolding checksum_def Let_def checksum_body
    by (simp only: int32_eq sint_not_and_255)
  then show ?thesis by (simp add: foldl_add_mod)
qed

lemma not_and_255_int: "NOT (s :: int) AND 255 = 255 - s mod 256"
proof -
  have "NOT s AND 255 = NOT s AND mask 8" by (simp add: mask_eq_exp_minus_1)
  also have "\<dots> = take_bit 8 (NOT s)" by (simp only: take_bit_eq_mask)
  also have "\<dots> = mask 8 - take_bit 8 s" by (rule take_bit_not_eq_mask_diff)
  also have "\<dots> = 255 - s mod 256" by (simp add: take_bit_eq_mod mask_eq_exp_minus_1)
  finally show ?thesis .
qed

text \<open>
  C3. For a body of at most 255 bytes \<open>wrapBytes\<close> returns
  \<open>[1, len(body), checksum(body), 2, ...body, 3]\<close>: its length is \<open>len(body) + 5\<close>, the
  bytes at positions 0, 3 and \<open>4 + len(body)\<close> are 1, 2 and 3, position 1 is the length and
  position 2 the checksum. For a longer body it returns the empty sequence.
\<close>

theorem wrapBytes_contract:
  "(length body \<le> 255 \<longrightarrow>
      wrapBytes body = [1, int (length body), checksum body, 2] @ body @ [3] \<and>
      length (wrapBytes body) = length body + 5 \<and>
      wrapBytes body ! 0 = 1 \<and>
      wrapBytes body ! 3 = 2 \<and>
      wrapBytes body ! (4 + length body) = 3 \<and>
      wrapBytes body ! 1 = int (length body) \<and>
      wrapBytes body ! 2 = checksum body) \<and>
   (length body > 255 \<longrightarrow> wrapBytes body = [])"
proof (intro conjI impI)
  assume le: "length body \<le> 255"
  then show eq: "wrapBytes body = [1, int (length body), checksum body, 2] @ body @ [3]"
    by (simp add: wrapBytes_def MESSAGE_BODY_MAX_LENGTH_def)
  show "length (wrapBytes body) = length body + 5" by (simp add: eq)
  show "wrapBytes body ! 0 = 1" by (simp add: eq)
  show "wrapBytes body ! 3 = 2" by (simp add: eq)
  show "wrapBytes body ! 1 = int (length body)" by (simp add: eq)
  show "wrapBytes body ! 2 = checksum body" by (simp add: eq)
  have "wrapBytes body = ([1, int (length body), checksum body, 2] @ body) @ [3]"
    by (simp add: eq)
  moreover have "4 + length body = length ([1, int (length body), checksum body, 2] @ body)"
    by simp
  ultimately show "wrapBytes body ! (4 + length body) = 3"
    by (simp only: nth_append_length)
next
  assume "255 < length body"
  then show "wrapBytes body = []"
    by (simp add: wrapBytes_def MESSAGE_BODY_MAX_LENGTH_def)
qed

theorem wrapBytes_contract_witness:
  "length [84 :: int] \<le> 255 \<and> wrapBytes [84] = [1, 1, 171, 2, 84, 3] \<and>
   length (replicate 256 (0 :: int)) > 255 \<and> wrapBytes (replicate 256 0) = []"
proof -
  have a: "length [84 :: int] \<le> 255" by simp
  have b: "length (replicate 256 (0 :: int)) > 255" by simp
  have "wrapBytes [84] = [1, int (length [84 :: int]), checksum [84], 2] @ [84] @ [3]"
    using wrapBytes_contract [of "[84]"] a by blast
  moreover have "checksum [84] = 171" by (simp add: checksum_eq)
  moreover have "wrapBytes (replicate 256 0) = []"
    using wrapBytes_contract [of "replicate 256 0"] b by blast
  ultimately show ?thesis using a b by simp
qed

text \<open>
  C4. For every byte sequence \<open>d\<close>, \<open>checksum d\<close> is \<open>~(sum of d mod 256) & 255\<close>, so
  \<open>(sum d mod 256 + checksum d) mod 256 = 255\<close>; the checksum of the empty sequence is 255
  and the result always lies in 0..255.
\<close>

theorem checksum_law:
  "checksum [] = 255 \<and>
   (bytes d \<longrightarrow>
      checksum d = NOT (sum_list d mod 256) AND 255 \<and>
      (sum_list d mod 256 + checksum d) mod 256 = 255 \<and>
      0 \<le> checksum d \<and> checksum d \<le> 255)"
proof -
  have r: "0 \<le> sum_list d mod 256" "sum_list d mod 256 < 256" by simp_all
  have "checksum d = NOT (sum_list d mod 256) AND 255"
    by (simp add: checksum_eq not_and_255_int)
  moreover have "(sum_list d mod 256 + checksum d) mod 256 = 255"
    by (simp add: checksum_eq)
  moreover have "0 \<le> checksum d" "checksum d \<le> 255"
    using r by (simp_all add: checksum_eq)
  moreover have "checksum [] = 255" by (simp add: checksum_eq)
  ultimately show ?thesis by simp
qed

theorem checksum_law_witness:
  "bytes [84, 0, 4, 28] \<and> checksum [84, 0, 4, 28] = 139 \<and>
   (116 mod 256 + checksum [84, 0, 4, 28]) mod 256 = 255"
proof -
  have b: "bytes [84, 0, 4, 28]" by (simp add: bytes_def is_byte_def)
  have "(sum_list [84, 0, 4, 28] mod 256 + checksum [84, 0, 4, 28]) mod 256 = 255"
    using checksum_law [of "[84, 0, 4, 28]"] b by blast
  moreover have "checksum [84, 0, 4, 28] = NOT (sum_list [84, 0, 4, 28] mod 256) AND 255"
    using checksum_law [of "[84, 0, 4, 28]"] b by blast
  ultimately show ?thesis using b by simp
qed

subsection \<open>encodePosition\<close>

lemma mod_div_65536: "(k :: int) mod 65536 div 256 = k div 256 mod 256"
proof -
  have "k mod 65536 div 256 = drop_bit 8 (take_bit 16 k)"
    by (simp add: take_bit_eq_mod drop_bit_eq_div)
  also have "\<dots> = take_bit 8 (drop_bit 8 k)"
    by (simp add: drop_bit_take_bit)
  also have "\<dots> = k div 256 mod 256"
    by (simp add: take_bit_eq_mod drop_bit_eq_div)
  finally show ?thesis .
qed

lemma ToInt32_of_nat: "ToInt32 (Fin (of_nat p)) = word_of_int (int p)"
  by (simp add: truncate_def)

lemma encodePosition_nat:
  "encodePosition (Fin (of_nat p)) = [int p mod 256, int p div 256 mod 256]"
  by (simp only: encodePosition_def Let_def ToInt32_of_nat sint_and_255 sint_shift_65280)

lemma and_255_int: "(k :: int) AND 255 = k mod 256"
proof -
  have "k AND 255 = k AND mask 8" by (simp add: mask_eq_exp_minus_1)
  also have "\<dots> = take_bit 8 k" by (simp only: take_bit_eq_mask)
  finally show ?thesis by (simp add: take_bit_eq_mod)
qed

text \<open>
  C5. For every unsigned integer position \<open>p\<close>, \<open>encodePosition\<close> returns the two bytes
  \<open>[p & 0xFF, (p >> 8) & 0xFF]\<close>; for \<open>p\<close> in 0..65535 reading them as a little-endian
  16-bit value gives \<open>p\<close> back, and a larger \<open>p\<close> is masked to its low 16 bits, not
  rejected.
\<close>

theorem encodePosition_roundtrip:
  "encodePosition (Fin (of_nat p)) = [int p AND 255, drop_bit 8 (int p) AND 255] \<and>
   (p \<le> 65535 \<longrightarrow> decode_le16 (encodePosition (Fin (of_nat p))) = int p) \<and>
   encodePosition (Fin (of_nat p)) = encodePosition (Fin (of_nat (p mod 65536)))"
proof (intro conjI impI)
  show "encodePosition (Fin (of_nat p)) = [int p AND 255, drop_bit 8 (int p) AND 255]"
    by (simp add: encodePosition_nat and_255_int drop_bit_eq_div)
  show "decode_le16 (encodePosition (Fin (of_nat p))) = int p" if "p \<le> 65535"
  proof -
    have "int p div 256 < 256" using that by simp
    then have "int p div 256 mod 256 = int p div 256" by simp
    then show ?thesis by (simp add: encodePosition_nat)
  qed
  have "int (p mod 65536) mod 256 = int p mod 256"
    by (simp add: zmod_int mod_mod_cancel)
  moreover have "int (p mod 65536) div 256 mod 256 = int p div 256 mod 256"
  proof -
    have "int (p mod 65536) = int p mod 65536" by (simp add: zmod_int)
    then show ?thesis by (simp only: mod_div_65536 mod_mod_trivial)
  qed
  ultimately show "encodePosition (Fin (of_nat p)) = encodePosition (Fin (of_nat (p mod 65536)))"
    by (simp only: encodePosition_nat)
qed

theorem encodePosition_roundtrip_witness:
  "(1024 :: nat) \<le> 65535 \<and> encodePosition (Fin (of_nat 1024)) = [0, 4] \<and>
   decode_le16 (encodePosition (Fin (of_nat 1024))) = 1024"
proof -
  have h: "(1024 :: nat) \<le> 65535" by simp
  have "decode_le16 (encodePosition (Fin (of_nat 1024))) = int 1024"
    using encodePosition_roundtrip [of 1024] h by blast
  moreover have "encodePosition (Fin (of_nat 1024)) = [int 1024 AND 255, drop_bit 8 (int 1024) AND 255]"
    using encodePosition_roundtrip [of 1024] by blast
  ultimately show ?thesis by (simp add: drop_bit_eq_div)
qed

subsection \<open>splitEvery\<close>

lemma array_slice_take_drop: "array_slice list idx (idx + n) = take n (drop idx list)"
  by (simp add: array_slice_def Let_def min_def)

lemma splitEvery_loop_acc:
  "splitEvery_loop n list idx result = result @ splitEvery_loop n list idx []"
proof (induction "length list - idx" arbitrary: idx result rule: less_induct)
  case less
  show ?case
  proof (cases "0 < n \<and> idx < length list")
    case True
    then have d: "length list - (idx + n) < length list - idx" by arith
    have "splitEvery_loop n list idx result
            = splitEvery_loop n list (idx + n) (result @ [array_slice list idx (idx + n)])"
      using True by (subst splitEvery_loop.simps) simp
    also have "\<dots> = (result @ [array_slice list idx (idx + n)]) @ splitEvery_loop n list (idx + n) []"
      by (rule less [OF d])
    also have "\<dots> = result @ splitEvery_loop n list (idx + n) ([] @ [array_slice list idx (idx + n)])"
      using less [OF d, of "[] @ [array_slice list idx (idx + n)]"] by simp
    also have "splitEvery_loop n list (idx + n) ([] @ [array_slice list idx (idx + n)])
                 = splitEvery_loop n list idx []"
      using True by (subst (2) splitEvery_loop.simps) simp
    finally show ?thesis .
  next
    case False
    then have "splitEvery_loop n list idx r = r" for r
      by (subst splitEvery_loop.simps) auto
    then show ?thesis by simp
  qed
qed

lemma splitEvery_loop_unfold:
  "splitEvery_loop n list idx [] =
     (if 0 < n \<and> idx < length list
      then take n (drop idx list) # splitEvery_loop n list (idx + n) []
      else [])"
proof (cases "0 < n \<and> idx < length list")
  case True
  then have "splitEvery_loop n list idx [] = splitEvery_loop n list (idx + n) [array_slice list idx (idx + n)]"
    by (subst splitEvery_loop.simps) simp
  also have "\<dots> = [array_slice list idx (idx + n)] @ splitEvery_loop n list (idx + n) []"
    by (rule splitEvery_loop_acc)
  finally show ?thesis using True by (simp add: array_slice_take_drop)
next
  case False
  then show ?thesis by (subst splitEvery_loop.simps) auto
qed

lemma splitEvery_loop_chunks:
  assumes "0 < n"
  shows "concat (splitEvery_loop n list idx []) = drop idx list \<and>
         (\<forall>i. i + 1 < length (splitEvery_loop n list idx []) \<longrightarrow>
               length (splitEvery_loop n list idx [] ! i) = n) \<and>
         (splitEvery_loop n list idx [] \<noteq> [] \<longrightarrow>
            0 < length (last (splitEvery_loop n list idx [])) \<and>
            length (last (splitEvery_loop n list idx [])) \<le> n)"
proof (induction "length list - idx" arbitrary: idx rule: less_induct)
  case less
  show ?case
  proof (cases "idx < length list")
    case True
    then have d: "length list - (idx + n) < length list - idx" using assms by arith
    let ?rest = "splitEvery_loop n list (idx + n) []"
    have u: "splitEvery_loop n list idx [] = take n (drop idx list) # ?rest"
      using True assms by (subst splitEvery_loop_unfold) simp
    note IH = less [OF d]
    have c: "concat (take n (drop idx list) # ?rest) = drop idx list"
      using IH by (simp add: add.commute[of idx n] flip: drop_drop)
    have e: "?rest = [] \<longleftrightarrow> \<not> idx + n < length list"
      using assms by (subst splitEvery_loop_unfold) simp
    have m: "\<forall>i. i + 1 < length (take n (drop idx list) # ?rest) \<longrightarrow>
               length ((take n (drop idx list) # ?rest) ! i) = n"
    proof (intro allI impI)
      fix i assume i: "i + 1 < length (take n (drop idx list) # ?rest)"
      show "length ((take n (drop idx list) # ?rest) ! i) = n"
      proof (cases i)
        case 0
        with i have "?rest \<noteq> []" by auto
        with e have "idx + n < length list" by simp
        with 0 show ?thesis by simp
      next
        case (Suc j)
        with i IH show ?thesis by simp
      qed
    qed
    have l: "0 < length (last (take n (drop idx list) # ?rest)) \<and>
             length (last (take n (drop idx list) # ?rest)) \<le> n"
    proof (cases "?rest = []")
      case True
      then show ?thesis using \<open>idx < length list\<close> assms by simp
    next
      case False
      then show ?thesis using IH by simp
    qed
    show ?thesis unfolding u using c m l by simp
  next
    case False
    then show ?thesis by (subst (1 2 3) splitEvery_loop_unfold) simp
  qed
qed

text \<open>
  C7. For every list and chunk size \<open>n > 0\<close>, \<open>splitEvery n list\<close> is an ordered partition
  of the list: concatenating the chunks gives the list back, every chunk but the last has
  exactly \<open>n\<close> elements and the last has between 1 and \<open>n\<close>. A 45-byte stream with chunk
  size 20 gives chunks of lengths 20, 20 and 5. For \<open>n \<le> 0\<close> the call throws. (The function
  reads no state, so calling it again gives the same partition.)
\<close>

theorem splitEvery_partition:
  "(0 < n \<longrightarrow>
      (\<exists>chunks. splitEvery n list = Inr chunks \<and>
         concat chunks = list \<and>
         (\<forall>i. i + 1 < length chunks \<longrightarrow> length (chunks ! i) = nat n) \<and>
         (chunks \<noteq> [] \<longrightarrow> 0 < length (last chunks) \<and> length (last chunks) \<le> nat n))) \<and>
   (length list = 45 \<longrightarrow>
      (\<exists>chunks. splitEvery 20 list = Inr chunks \<and> map length chunks = [20, 20, 5])) \<and>
   (n \<le> 0 \<longrightarrow>
      splitEvery n list = Inl (Error ''First argument to splitEvery must be a positive integer''))"
proof (intro conjI impI)
  assume n: "0 < n"
  then have "0 < nat n" by simp
  from splitEvery_loop_chunks [OF this, of list 0] n
  show "\<exists>chunks. splitEvery n list = Inr chunks \<and>
         concat chunks = list \<and>
         (\<forall>i. i + 1 < length chunks \<longrightarrow> length (chunks ! i) = nat n) \<and>
         (chunks \<noteq> [] \<longrightarrow> 0 < length (last chunks) \<and> length (last chunks) \<le> nat n)"
    by (simp add: splitEvery_def)
next
  assume len: "length list = 45"
  have "splitEvery_loop 20 list 0 [] =
          [take 20 list, take 20 (drop 20 list), take 20 (drop 40 list)]"
    using len by (simp add: splitEvery_loop_unfold)
  then show "\<exists>chunks. splitEvery 20 list = Inr chunks \<and> map length chunks = [20, 20, 5]"
    using len by (simp add: splitEvery_def)
next
  assume "n \<le> 0"
  then show "splitEvery n list = Inl (Error ''First argument to splitEvery must be a positive integer'')"
    by (simp add: splitEvery_def)
qed

theorem splitEvery_partition_witness:
  "(0 :: int) < 2 \<and> splitEvery 2 [1, 2, 3 :: nat] = Inr [[1, 2], [3]] \<and>
   length (replicate 45 (7 :: nat)) = 45 \<and>
   (\<exists>chunks. splitEvery 20 (replicate 45 (7 :: nat)) = Inr chunks \<and> map length chunks = [20, 20, 5]) \<and>
   (0 :: int) \<le> 0 \<and>
   splitEvery 0 [1, 2, 3 :: nat] = Inl (Error ''First argument to splitEvery must be a positive integer'')"
proof -
  have a: "(0 :: int) < 2" and b: "length (replicate 45 (7 :: nat)) = 45" and c: "(0 :: int) \<le> 0"
    by simp_all
  obtain chunks where ch: "splitEvery 2 [1, 2, 3 :: nat] = Inr chunks" "concat chunks = [1, 2, 3]"
    using splitEvery_partition [of 2 "[1, 2, 3 :: nat]"] a by blast
  have "splitEvery 2 [1, 2, 3 :: nat] = Inr [[1, 2], [3]]"
    by (simp add: splitEvery_def splitEvery_loop_unfold)
  moreover have "\<exists>chunks. splitEvery 20 (replicate 45 (7 :: nat)) = Inr chunks \<and> map length chunks = [20, 20, 5]"
    using splitEvery_partition [of 20 "replicate 45 (7 :: nat)"] b by blast
  moreover have "splitEvery 0 [1, 2, 3 :: nat] = Inl (Error ''First argument to splitEvery must be a positive integer'')"
    using splitEvery_partition [of 0 "[1, 2, 3 :: nat]"] c by blast
  ultimately show ?thesis using ch by simp
qed

subsection \<open>encodeColor on six hexadecimal digits\<close>

lemma hex_digit_lt: "hex_digit c = Some d \<Longrightarrow> d < 16"
  by (auto simp: hex_digit_def Let_def split: if_splits)

lemma hex_digit_plain:
  assumes "hex_digit c = Some d"
  shows "\<not> is_whitespace c" "c \<noteq> CHR ''-''" "c \<noteq> CHR ''+''" "c \<noteq> CHR ''x''" "c \<noteq> CHR ''X''"
  using assms by (auto simp: hex_digit_def is_whitespace_def Let_def split: if_splits)

lemma truncate_div:
  assumes "0 \<le> v" "0 < m"
  shows "truncate (of_int v / of_int m) = v div m"
proof -
  have "(0 :: rat) \<le> of_int v / of_int m" using assms by simp
  then show ?thesis by (simp add: truncate_def floor_divide_of_int_eq not_less[symmetric])
qed

lemma truncate_small_neg:
  assumes "v < 0" "- m < v" 
  shows "truncate (of_int v / of_int m) = 0"
proof -
  have m: "0 < m" using assms by simp
  then have "of_int v / (of_int m :: rat) < 0" using assms by (simp add: divide_neg_pos)
  moreover have "- (of_int v / of_int m :: rat) = of_int (- v) / of_int m" by simp
  moreover have "(- v) div m = 0" using assms by simp
  ultimately show ?thesis 
    by (simp only: truncate_def floor_divide_of_int_eq if_True)
qed

lemma parseInt16_two_digits:
  assumes "hex_digit a = Some da" "hex_digit b = Some db"
  shows "parseInt16 [a, b] = Fin (of_int (int (16 * da + db)))"
  using assms hex_digit_plain[OF assms(1)] hex_digit_plain[OF assms(2)]
  by (simp add: parseInt16_def Let_def mathInt_def)

lemma quantize_two_digits:
  assumes "hex_digit a = Some da" "hex_digit b = Some db" "0 < m"
  shows "ToInt32 (div_by (parseInt16 [a, b]) (of_int m)) = word_of_int (int (16 * da + db) div m)"
  by (simp only: parseInt16_two_digits[OF assms(1,2)] div_by.simps ToInt32.simps
        truncate_div[OF of_nat_0_le_iff assms(3)])


lemma substring_six:
  "substring [c1, c2, c3, c4, c5, c6] 0 2 = [c1, c2]"
  "substring [c1, c2, c3, c4, c5, c6] 2 4 = [c3, c4]"
  "substring [c1, c2, c3, c4, c5, c6] 4 6 = [c5, c6]"
  by (simp_all add: substring_def)

lemma rat_32_64: "(32 :: rat) = of_int 32" "(64 :: rat) = of_int 64"
  by simp_all

text \<open>
  C6. For every colour string of six hexadecimal digits \<open>RRGGBB\<close>, \<open>encodeColor\<close> returns
  the byte \<open>(R div 32) << 5 | (G div 32) << 2 | (B div 64)\<close> of the decoded components;
  \<open>encodeColor("FF0000")\<close> is 224 and the pair (1024, \<open>"00FF00"\<close>) encodes to \<open>[0, 4, 28]\<close>.
\<close>

theorem encodeColor_quantization:
  "(hex_digit r1 = Some R1 \<and> hex_digit r2 = Some R2 \<and>
    hex_digit g1 = Some G1 \<and> hex_digit g2 = Some G2 \<and>
    hex_digit b1 = Some B1 \<and> hex_digit b2 = Some B2 \<longrightarrow>
      encodeColor (Val [r1, r2, g1, g2, b1, b2]) =
        Inr ((push_bit 5 (int (16 * R1 + R2) div 32) OR push_bit 2 (int (16 * G1 + G2) div 32))
               OR int (16 * B1 + B2) div 64)) \<and>
   encodeColor (Val ''FF0000'') = Inr 224 \<and>
   encodePositionAndColor (Fin 1024) (Val ''00FF00'') = Inr [0, 4, 28]"
proof (intro conjI impI)
  assume h: "hex_digit r1 = Some R1 \<and> hex_digit r2 = Some R2 \<and>
    hex_digit g1 = Some G1 \<and> hex_digit g2 = Some G2 \<and>
    hex_digit b1 = Some B1 \<and> hex_digit b2 = Some B2"
  let ?R = "int (16 * R1 + R2)" and ?G = "int (16 * G1 + G2)" and ?B = "int (16 * B1 + B2)"
  have lt: "R1 < 16" "R2 < 16" "G1 < 16" "G2 < 16" "B1 < 16" "B2 < 16"
    using h by (auto dest: hex_digit_lt)
  have qr: "ToInt32 (div_by (parseInt16 [r1, r2]) 32) = word_of_int (?R div 32)"
    unfolding rat_32_64 using h by (intro quantize_two_digits) simp_all
  have qg: "ToInt32 (div_by (parseInt16 [g1, g2]) 32) = word_of_int (?G div 32)"
    unfolding rat_32_64 using h by (intro quantize_two_digits) simp_all
  have qb: "ToInt32 (div_by (parseInt16 [b1, b2]) 64) = word_of_int (?B div 64)"
    unfolding rat_32_64 using h by (intro quantize_two_digits) simp_all
  have "sint ((push_bit 5 (word_of_int (?R div 32) :: 32 word) OR push_bit 2 (word_of_int (?G div 32)))
               OR word_of_int (?B div 64))
          = (push_bit 5 (?R div 32) OR push_bit 2 (?G div 32)) OR ?B div 64"
    by (rule sint_rgb332) (use lt in simp_all)
  then show "encodeColor (Val [r1, r2, g1, g2, b1, b2]) =
        Inr ((push_bit 5 (?R div 32) OR push_bit 2 (?G div 32)) OR ?B div 64)"
    by (simp only: encodeColor.simps Let_def substring_six qr qg qb)
next
  show "encodeColor (Val ''FF0000'') = Inr 224" by code_simp
next
  show "encodePositionAndColor (Fin 1024) (Val ''00FF00'') = Inr [0, 4, 28]" by code_simp
qed

theorem encodeColor_quantization_witness:
  "hex_digit CHR ''8'' = Some 8 \<and> hex_digit CHR ''0'' = Some 0 \<and>
   hex_digit CHR ''f'' = Some 15 \<and> hex_digit CHR ''F'' = Some 15 \<and>
   hex_digit CHR ''4'' = Some 4 \<and> hex_digit CHR ''0'' = Some 0 \<and>
   encodeColor (Val ''80fF40'') = Inr 157"
proof -
  have h: "hex_digit CHR ''8'' = Some 8 \<and> hex_digit CHR ''0'' = Some 0 \<and>
           hex_digit CHR ''f'' = Some 15 \<and> hex_digit CHR ''F'' = Some 15 \<and>
           hex_digit CHR ''4'' = Some 4 \<and> hex_digit CHR ''0'' = Some 0"
    by (simp add: hex_digit_def)
  have "encodeColor (Val [CHR ''8'', CHR ''0'', CHR ''f'', CHR ''F'', CHR ''4'', CHR ''0'']) =
        Inr ((push_bit 5 (int (16 * 8 + 0) div 32) OR push_bit 2 (int (16 * 15 + 15) div 32))
               OR int (16 * 4 + 0) div 64)"
    using encodeColor_quantization [of "CHR ''8''" 8 "CHR ''0''" 0 "CHR ''f''" 15 "CHR ''F''" 15
        "CHR ''4''" 4 "CHR ''0''" 0] h by blast
  then show ?thesis using h by simp
qed

subsection \<open>encodeColor on any string\<close>

lemma takeDigits_length: "length (takeDigits s) \<le> length s"
  by (induction s) (auto split: option.splits)

lemma takeDigits_lt: "d \<in> set (takeDigits s) \<Longrightarrow> d < 16"
  by (induction s) (auto split: option.splits intro: hex_digit_lt [OF sym])

lemma mathInt_short:
  assumes "length ds \<le> n" "n \<le> 2" "\<forall>d\<in>set ds. d < 16"
  shows "mathInt ds < 16 ^ n"
proof -
  consider "ds = []" | d where "ds = [d]" | d e where "ds = [d, e]"
    using assms(1,2) by (cases ds; cases "tl ds"; cases "tl (tl ds)") auto
  then show ?thesis
  proof cases
    case 1 then show ?thesis by (simp add: mathInt_def)
  next
    case 2
    then have "mathInt ds < 16" "1 \<le> n" using assms by (auto simp: mathInt_def)
    moreover have "(16 :: nat) ^ 1 \<le> 16 ^ n" using \<open>1 \<le> n\<close> by (intro power_increasing) simp_all
    ultimately show ?thesis by simp
  next
    case 3
    then have "mathInt ds < 256" "n = 2" using assms by (auto simp: mathInt_def)
    then show ?thesis by simp
  qed
qed

lemma parseInt16_short:
  assumes "length s \<le> 2"
  shows "parseInt16 s = NaN \<or> (\<exists>v. parseInt16 s = Fin (of_int v) \<and> - 16 < v \<and> v < 256)"
proof -
  define s1 where "s1 = dropWhile is_whitespace s"
  define neg where "neg = (s1 \<noteq> [] \<and> hd s1 = CHR ''-'')"
  define s2 where "s2 = (if s1 \<noteq> [] \<and> (hd s1 = CHR ''-'' \<or> hd s1 = CHR ''+'') then tl s1 else s1)"
  define s3 where "s3 = (if take 2 s2 = ''0x'' \<or> take 2 s2 = ''0X'' then drop 2 s2 else s2)"
  define ds where "ds = takeDigits s3"
  have p: "parseInt16 s = (if ds = [] then NaN
             else Fin (of_int ((if neg then - 1 else 1) * int (mathInt ds))))"
    by (simp add: parseInt16_def Let_def s1_def neg_def s2_def s3_def ds_def)
  have l1: "length s1 \<le> 2"
    using assms length_dropWhile_le [of is_whitespace s] by (simp add: s1_def)
  have l2: "length s2 \<le> 2" and l2n: "neg \<Longrightarrow> length s2 \<le> 1"
    using l1 by (auto simp: s2_def neg_def)
  have l3: "length s3 \<le> length s2" by (simp add: s3_def)
  have lds: "length ds \<le> length s3" by (simp add: ds_def takeDigits_length)
  have dig: "\<forall>d\<in>set ds. d < 16" by (auto simp: ds_def dest: takeDigits_lt)
  show ?thesis
  proof (cases "ds = []")
    case True
    then show ?thesis by (simp add: p)
  next
    case False
    show ?thesis
    proof (cases neg)
      case True
      have "length ds \<le> 1" using lds l3 l2n [OF True] by simp
      then have "mathInt ds < 16 ^ 1" by (rule mathInt_short) (use dig in simp_all)
      moreover have "parseInt16 s = Fin (of_int (- int (mathInt ds)))"
        using True False by (simp add: p)
      ultimately have "parseInt16 s = Fin (of_int (- int (mathInt ds))) \<and>
          - 16 < - int (mathInt ds) \<and> - int (mathInt ds) < 256"
        by simp
      then show ?thesis by blast
    next
      case False
      have "length ds \<le> 2" using lds l3 l2 by simp
      then have "mathInt ds < 16 ^ 2" by (rule mathInt_short) (use dig in simp_all)
      moreover have "parseInt16 s = Fin (of_int (int (mathInt ds)))"
        using False \<open>ds \<noteq> []\<close> by (simp add: p)
      ultimately have "parseInt16 s = Fin (of_int (int (mathInt ds))) \<and>
          - 16 < int (mathInt ds) \<and> int (mathInt ds) < 256"
        by simp
      then show ?thesis by blast
    qed
  qed
qed

lemma substring_length:
  "length (substring s 0 2) \<le> 2" "length (substring s 2 4) \<le> 2" "length (substring s 4 6) \<le> 2"
  by (auto simp: substring_def Let_def min_def max_def)

lemma quantize_short:
  assumes "length s \<le> 2" "m = 32 \<or> m = 64"
  shows "\<exists>q. ToInt32 (div_by (parseInt16 s) (of_int m)) = word_of_int q \<and> 0 \<le> q \<and> q < 256 div m"
proof -
  from parseInt16_short [OF assms(1)]
  consider "parseInt16 s = NaN" | v where "parseInt16 s = Fin (of_int v)" "- 16 < v" "v < 256"
    by blast
  then show ?thesis
  proof cases
    case 1
    have "ToInt32 (div_by NaN (of_int m)) = word_of_int 0" by simp
    then show ?thesis using 1 assms(2) by (intro exI [of _ 0]) auto
  next
    case 2
    show ?thesis
    proof (cases "v < 0")
      case True
      then have "truncate (of_int v / of_int m) = 0"
        using 2 assms(2) by (intro truncate_small_neg) auto
      then have "ToInt32 (div_by (parseInt16 s) (of_int m)) = word_of_int 0"
        by (simp only: 2 div_by.simps ToInt32.simps)
      then show ?thesis using assms(2) by (intro exI [of _ 0]) auto
    next
      case False
      then have "truncate (of_int v / of_int m) = v div m"
        using assms(2) by (intro truncate_div) auto
      then have "ToInt32 (div_by (parseInt16 s) (of_int m)) = word_of_int (v div m)"
        by (simp only: 2 div_by.simps ToInt32.simps)
      moreover have "0 \<le> v div m" "v div m < 256 div m"
        using False 2 assms(2) by auto
      ultimately show ?thesis by blast
    qed
  qed
qed

lemma encodeColor_byte:
  "\<exists>c. encodeColor (Val color) = Inr c \<and> 0 \<le> c \<and> c \<le> 255"
proof -
  have l: "length (substring color 0 2) \<le> 2" "length (substring color 2 4) \<le> 2"
          "length (substring color 4 6) \<le> 2"
    by (rule substring_length)+
  obtain r where r: "ToInt32 (div_by (parseInt16 (substring color 0 2)) 32) = word_of_int r"
      "0 \<le> r" "r < 8"
    using quantize_short [OF l(1), of 32] by auto
  obtain g where g: "ToInt32 (div_by (parseInt16 (substring color 2 4)) 32) = word_of_int g"
      "0 \<le> g" "g < 8"
    using quantize_short [OF l(2), of 32] by auto
  obtain b where b: "ToInt32 (div_by (parseInt16 (substring color 4 6)) 64) = word_of_int b"
      "0 \<le> b" "b < 4"
    using quantize_short [OF l(3), of 64] by auto
  let ?v = "(push_bit 5 r OR push_bit 2 g) OR b"
  have s: "sint ((push_bit 5 (word_of_int r :: 32 word) OR push_bit 2 (word_of_int g)) OR word_of_int b) = ?v"
    using r(2,3) g(2,3) b(2,3) by (rule sint_rgb332)
  have e: "encodeColor (Val color) = Inr ?v"
    by (simp only: encodeColor.simps Let_def r(1) g(1) b(1) s)
  have "0 \<le> ?v" using r g b by simp
  moreover have "?v < 2 ^ 8"
  proof (rule OR_upper)
    show "0 \<le> push_bit 5 r OR push_bit 2 g" using r g by simp
    show "push_bit 5 r OR push_bit 2 g < 2 ^ 8"
      by (rule OR_upper) (use r g in \<open>simp_all add: push_bit_eq_mult\<close>)
    show "b < 2 ^ 8" using b by simp
  qed
  ultimately show ?thesis using e by simp
qed

subsection \<open>The loop of getBluetoothPacket\<close>

lemma byte_and_255: "is_byte (sint ((w :: 32 word) AND 255))"
proof -
  have "sint (word_of_int (uint w) AND (255 :: 32 word)) = uint w mod 256"
    by (rule sint_and_255)
  then show ?thesis by (simp add: is_byte_def)
qed

lemma byte_shift_65280: "is_byte (sint (signed_drop_bit 8 ((w :: 32 word) AND 65280)))"
proof -
  have "sint (signed_drop_bit 8 (word_of_int (uint w) AND (65280 :: 32 word))) = uint w div 256 mod 256"
    by (rule sint_shift_65280)
  then show ?thesis by (simp add: is_byte_def)
qed

lemma encodePosition_bytes: "length (encodePosition x) = 2 \<and> bytes (encodePosition x)"
  by (simp add: encodePosition_def Let_def bytes_def byte_and_255 byte_shift_65280)

lemma encodePositionAndColor_Val:
  "\<exists>triple. encodePositionAndColor x (Val color) = Inr triple \<and> length triple = 3 \<and> bytes triple"
proof -
  obtain c where c: "encodeColor (Val color) = Inr c" "0 \<le> c" "c \<le> 255"
    using encodeColor_byte by blast
  then have "encodePositionAndColor x (Val color) = Inr (encodePosition x @ [c])"
    by (simp add: encodePositionAndColor_def)
  moreover have "length (encodePosition x @ [c]) = 3" "bytes (encodePosition x @ [c])"
    using c encodePosition_bytes [of x] by (simp_all add: bytes_def is_byte_def)
  ultimately show ?thesis by blast
qed

lemma encodePositionAndColor_not_string:
  "\<not> is_string c \<Longrightarrow> encodePositionAndColor x c = Inl TypeError"
  by (cases c) (simp_all add: encodePositionAndColor_def)

lemma encodePositionAndColor_Inr:
  assumes "encodePositionAndColor x c = Inr triple"
  shows "length triple = 3 \<and> bytes triple \<and> is_string c"
proof (cases c)
  case (Val color)
  with assms encodePositionAndColor_Val [of x color] show ?thesis by auto
qed (use assms in \<open>simp_all add: encodePositionAndColor_def\<close>)

lemma frame_step_empty: "frame_step pp colors st [] = Inr st"
  by (simp add: frame_step_def split: prod.splits)

lemma frame_step_nonempty:
  assumes "frame \<noteq> []"
  shows "frame_step pp colors (resultArray, tempArray) frame =
     (case encodePositionAndColor
             (Number (property pp (key_of (element (split frame CHR ''r'') 0))))
             (color_or_role colors (element (split frame CHR ''r'') 1)) of
        Inl e \<Rightarrow> Inl e
      | Inr encodedFrame \<Rightarrow>
          if length tempArray + 3 > 255
          then Inr (resultArray @ [tempArray], PACKET_MIDDLE # encodedFrame)
          else Inr (resultArray, tempArray @ encodedFrame))"
  using assms by (simp add: frame_step_def Let_def MESSAGE_BODY_MAX_LENGTH_def split: sum.splits)

lemma bytes_append: "bytes (xs @ ys) \<longleftrightarrow> bytes xs \<and> bytes ys"
  by (simp add: bytes_def)

lemma bytes_Cons: "bytes (x # xs) \<longleftrightarrow> is_byte x \<and> bytes xs"
  by (simp add: bytes_def)

lemma frame_step_inv:
  assumes "frame_step pp colors st frame = Inr st'" "splitter_inv st"
  shows "splitter_inv st' \<and>
         252 * length (fst st') + length (snd st') =
           252 * length (fst st) + length (snd st) + (if frame = [] then 0 else 3)"
proof (cases "frame = []")
  case True
  with assms show ?thesis by (simp add: frame_step_empty)
next
  case False
  obtain res tmp where st: "st = (res, tmp)" by (cases st)
  let ?enc = "encodePositionAndColor
             (Number (property pp (key_of (element (split frame CHR ''r'') 0))))
             (color_or_role colors (element (split frame CHR ''r'') 1))"
  from assms(1) obtain triple where t: "?enc = Inr triple"
    unfolding st frame_step_nonempty [OF False] by (cases ?enc) auto
  then have tl: "length triple = 3" "bytes triple"
    using encodePositionAndColor_Inr by blast+
  have inv: "list_all (\<lambda>p. length p = 253 \<and> hd p = PACKET_MIDDLE \<and> bytes p) res"
    "tmp \<noteq> []" "hd tmp = PACKET_MIDDLE" "bytes tmp" "length tmp mod 3 = 1" "length tmp \<le> 253"
    "res \<noteq> [] \<longrightarrow> 4 \<le> length tmp"
    using assms(2) by (simp_all add: st splitter_inv_def)
  show ?thesis
  proof (cases "length tmp + 3 > 255")
    case True
    then have l: "length tmp = 253" using inv(6) by simp
    have s: "st' = (res @ [tmp], PACKET_MIDDLE # triple)"
      using assms(1) True unfolding st frame_step_nonempty [OF False] t by simp
    show ?thesis
      using inv l tl False
      by (simp add: s st splitter_inv_def bytes_Cons is_byte_def PACKET_MIDDLE_def)
  next
    case False
    then have "length tmp \<le> 252" by simp
    moreover have "length tmp \<noteq> 252" "length tmp \<noteq> 251" using inv(5) by auto
    ultimately have l: "length tmp \<le> 250" by arith
    have s: "st' = (res, tmp @ triple)"
      using assms(1) False unfolding st frame_step_nonempty [OF \<open>frame \<noteq> []\<close>] t by simp
    have "(length tmp + 3) mod 3 = 1" using inv(5) by simp
    then show ?thesis
      using inv l tl \<open>frame \<noteq> []\<close>
      by (auto simp: s st splitter_inv_def bytes_append)
  qed
qed

lemma forEach_inv:
  assumes "forEach (frame_step pp colors) st frames = Inr st'" "splitter_inv st"
  shows "splitter_inv st' \<and>
         252 * length (fst st') + length (snd st') =
           252 * length (fst st) + length (snd st) + 3 * length (filter (\<lambda>f. length f > 0) frames)"
  using assms
proof (induction frames arbitrary: st)
  case Nil
  then show ?case by simp
next
  case (Cons frame frames)
  from Cons.prems(1) obtain st1 where
    s1: "frame_step pp colors st frame = Inr st1" and
    s2: "forEach (frame_step pp colors) st1 frames = Inr st'"
    by (auto split: sum.splits)
  note a = frame_step_inv [OF s1 Cons.prems(2)]
  note b = Cons.IH [OF s2 a [THEN conjunct1]]
  show ?case using a b by (cases "frame = []") simp_all
qed

lemma splitter_inv_init: "splitter_inv ([], [PACKET_MIDDLE])"
  by (simp add: splitter_inv_def bytes_def is_byte_def PACKET_MIDDLE_def)

lemma forEach_total:
  assumes "list_all (\<lambda>frame. is_string (color_or_role colors (element (split frame CHR ''r'') 1)))
             (filter (\<lambda>frame. length frame > 0) frames)"
  shows "\<exists>st'. forEach (frame_step pp colors) st frames = Inr st'"
  using assms
proof (induction frames arbitrary: st)
  case Nil
  then show ?case by simp
next
  case (Cons frame frames)
  obtain res tmp where st: "st = (res, tmp)" by (cases st)
  have "\<exists>st1. frame_step pp colors st frame = Inr st1"
  proof (cases "frame = []")
    case True
    then show ?thesis by (simp add: frame_step_empty)
  next
    case False
    with Cons.prems have "is_string (color_or_role colors (element (split frame CHR ''r'') 1))"
      by simp
    then obtain c where
      "color_or_role colors (element (split frame CHR ''r'') 1) = Val c"
      by (cases "color_or_role colors (element (split frame CHR ''r'') 1)") simp_all
    moreover obtain triple where "encodePositionAndColor
             (Number (property pp (key_of (element (split frame CHR ''r'') 0)))) (Val c) = Inr triple"
      using encodePositionAndColor_Val by blast
    ultimately show ?thesis
      unfolding st frame_step_nonempty [OF False] by simp
  qed
  then obtain st1 where s1: "frame_step pp colors st frame = Inr st1" ..
  have "list_all (\<lambda>frame. is_string (color_or_role colors (element (split frame CHR ''r'') 1)))
             (filter (\<lambda>frame. length frame > 0) frames)"
    using Cons.prems by (simp split: if_splits)
  from Cons.IH [OF this, of st1] s1 show ?case by simp
qed

subsection \<open>Role markers and the finished packets\<close>

lemma set_first_nonempty:
  "p \<noteq> [] \<Longrightarrow> set_first p v = v # tl p"
  by (cases p) (simp_all add: set_first_def)

lemma set_role_markers_length: "length (set_role_markers ps) = length ps"
  by (simp add: set_role_markers_def Let_def)

lemma set_role_markers_nth:
  assumes "i < length ps"
  shows "set_role_markers ps ! i =
     (if length ps = 1 then set_first (ps ! i) PACKET_ONLY
      else if i = length ps - 1 then set_first (ps ! i) PACKET_LAST
      else if i = 0 then set_first (ps ! i) PACKET_FIRST
      else ps ! i)"
proof (cases "length ps = 1")
  case True
  with assms show ?thesis by (simp add: set_role_markers_def)
next
  case False
  with assms have gt: "length ps > 1" by simp
  show ?thesis
    using assms gt by (auto simp: set_role_markers_def Let_def nth_list_update)
qed

lemma logical_packets_Inr:
  assumes "logical_packets frames pp colors = Inr ps"
  obtains res tmp where
    "splitter_inv (res, tmp)"
    "252 * length res + length tmp = 1 + 3 * length (pairs frames)"
    "ps = set_role_markers (res @ [tmp])"
proof -
  from assms obtain res tmp where
    f: "forEach (frame_step pp colors) ([], [PACKET_MIDDLE]) (split frames CHR ''p'') = Inr (res, tmp)"
    and ps: "ps = set_role_markers (res @ [tmp])"
    by (auto simp: logical_packets_def split: sum.splits prod.splits)
  from forEach_inv [OF f splitter_inv_init]
  have "splitter_inv (res, tmp)" "252 * length res + length tmp = 1 + 3 * length (pairs frames)"
    by (simp_all add: pairs_def)
  with ps that show ?thesis by blast
qed

lemma raw_packets:
  assumes "splitter_inv (res, tmp)" "i < length (res @ [tmp])"
  shows "(res @ [tmp]) ! i \<noteq> [] \<and> hd ((res @ [tmp]) ! i) = PACKET_MIDDLE \<and>
         bytes ((res @ [tmp]) ! i) \<and> length ((res @ [tmp]) ! i) mod 3 = 1 \<and>
         length ((res @ [tmp]) ! i) \<le> 253"
proof (cases "i < length res")
  case True
  then have "length (res ! i) = 253 \<and> hd (res ! i) = PACKET_MIDDLE \<and> bytes (res ! i)"
    using assms(1) by (simp add: splitter_inv_def list_all_length)
  moreover from this have "res ! i \<noteq> []" by auto
  ultimately show ?thesis using True by (simp add: nth_append)
next
  case False
  with assms(2) have "i = length res" by simp
  then show ?thesis using assms(1) by (simp add: splitter_inv_def)
qed

lemma set_first_props:
  assumes "p \<noteq> []" "bytes p" "is_byte v"
  shows "set_first p v \<noteq> []" "bytes (set_first p v)" "length (set_first p v) = length p"
        "set_first p v ! 0 = v"
  using assms by (cases p; simp add: set_first_def bytes_Cons)+

lemma markers_are_bytes:
  "is_byte PACKET_ONLY" "is_byte PACKET_FIRST" "is_byte PACKET_LAST" "is_byte PACKET_MIDDLE"
  by (simp_all add: is_byte_def PACKET_ONLY_def PACKET_FIRST_def PACKET_LAST_def PACKET_MIDDLE_def)

lemma final_packets:
  assumes "splitter_inv (res, tmp)" "ps = set_role_markers (res @ [tmp])" "i < length ps"
  shows "ps ! i \<noteq> [] \<and> bytes (ps ! i) \<and> length (ps ! i) mod 3 = 1 \<and> length (ps ! i) \<le> 253 \<and>
         ps ! i ! 0 =
           (if length ps = 1 then PACKET_ONLY
            else if i = length ps - 1 then PACKET_LAST
            else if i = 0 then PACKET_FIRST
            else PACKET_MIDDLE)"
proof -
  let ?raw = "res @ [tmp]"
  have i: "i < length ?raw" using assms(2,3) by (simp add: set_role_markers_length)
  have len: "length ps = length ?raw" by (simp add: assms(2) set_role_markers_length)
  from raw_packets [OF assms(1) i]
  have r: "?raw ! i \<noteq> []" "bytes (?raw ! i)" "length (?raw ! i) mod 3 = 1"
      "length (?raw ! i) \<le> 253" "hd (?raw ! i) = PACKET_MIDDLE"
    by simp_all
  have hd0: "?raw ! i ! 0 = PACKET_MIDDLE" using r by (cases "?raw ! i") simp_all
  note sf = set_first_props [OF r(1,2)]
  have n: "ps ! i =
     (if length ps = 1 then set_first (?raw ! i) PACKET_ONLY
      else if i = length ps - 1 then set_first (?raw ! i) PACKET_LAST
      else if i = 0 then set_first (?raw ! i) PACKET_FIRST
      else ?raw ! i)"
    using set_role_markers_nth [OF i] by (simp add: assms(2) set_role_markers_length)
  consider (only) "length ps = 1" | (last) "length ps \<noteq> 1" "i = length ps - 1"
    | (first) "length ps \<noteq> 1" "i \<noteq> length ps - 1" "i = 0"
    | (middle) "length ps \<noteq> 1" "i \<noteq> length ps - 1" "i \<noteq> 0"
    by blast
  then show ?thesis
  proof cases
    case only
    with n have "ps ! i = set_first (?raw ! i) PACKET_ONLY" by simp
    with sf [OF markers_are_bytes(1)] r only show ?thesis by simp
  next
    case last
    with n have "ps ! i = set_first (?raw ! i) PACKET_LAST" by simp
    with sf [OF markers_are_bytes(3)] r last show ?thesis by simp
  next
    case first
    with n have "ps ! i = set_first (?raw ! i) PACKET_FIRST" by simp
    with sf [OF markers_are_bytes(2)] r first show ?thesis by simp
  next
    case middle
    with n have "ps ! i = ?raw ! i" by simp
    with r hd0 middle show ?thesis by simp
  qed
qed

lemma logical_packets_zero:
  assumes "pairs frames = []"
  shows "logical_packets frames pp colors = Inr [[PACKET_ONLY]]"
proof -
  have "forEach (frame_step pp colors) st fs = Inr st" if "filter (\<lambda>f. length f > 0) fs = []" for st fs
    using that by (induction fs) (simp_all add: frame_step_empty split: if_splits)
  then have "forEach (frame_step pp colors) ([], [PACKET_MIDDLE]) (split frames CHR ''p'')
               = Inr ([], [PACKET_MIDDLE])"
    using assms by (simp add: pairs_def)
  then show ?thesis
    by (simp add: logical_packets_def set_role_markers_def set_first_def)
qed

lemma logical_packets_total:
  assumes "colored colors frames"
  shows "\<exists>ps. logical_packets frames pp colors = Inr ps"
proof -
  obtain st where "forEach (frame_step pp colors) ([], [PACKET_MIDDLE]) (split frames CHR ''p'') = Inr st"
    using forEach_total assms unfolding colored_def pairs_def by blast
  then show ?thesis by (cases st) (simp add: logical_packets_def)
qed

subsection \<open>Wrapped frames\<close>

lemma checksum_byte: "is_byte (checksum d)"
proof -
  have "0 \<le> sum_list d mod 256" "sum_list d mod 256 < 256" by simp_all
  then show ?thesis by (simp add: checksum_eq is_byte_def)
qed

lemma wrapBytes_fits:
  assumes "length p \<le> 253" "bytes p"
  shows "wrapBytes p = [1, int (length p), checksum p, 2] @ p @ [3]" "bytes (wrapBytes p)"
proof -
  show w: "wrapBytes p = [1, int (length p), checksum p, 2] @ p @ [3]"
    using assms(1) by (simp add: wrapBytes_def MESSAGE_BODY_MAX_LENGTH_def)
  have "is_byte (int (length p))" using assms(1) by (simp add: is_byte_def)
  then show "bytes (wrapBytes p)"
    using assms(2) checksum_byte [of p]
    by (simp add: w bytes_Cons bytes_append is_byte_def, simp add: bytes_def)
qed

lemma bytes_concat: "list_all bytes xss \<Longrightarrow> bytes (concat xss)"
  by (induction xss) (simp_all add: bytes_append, simp add: bytes_def)

lemma uint_Uint8Array_from:
  assumes "bytes xs"
  shows "map uint (Uint8Array_from xs) = xs"
proof -
  have "uint (word_of_int x :: 8 word) = x" if "is_byte x" for x
  proof -
    have "take_bit 8 x = x"
      by (rule take_bit_int_eq_self) (use that in \<open>simp_all add: is_byte_def\<close>)
    then show ?thesis by (simp add: uint_word_of_int_eq)
  qed
  then show ?thesis
    using assms by (induction xs) (simp_all add: Uint8Array_from_def bytes_Cons)
qed

lemma mod3_form: "(n :: nat) mod 3 = 1 \<Longrightarrow> \<exists>k. n = 1 + 3 * k"
  by (metis mod_mult_div_eq)

text \<open>
  C10. Every logical packet that \<open>getBluetoothPacket\<close> builds has length \<open>1 + 3k\<close> and at
  most 253 bytes, so each packet handed to \<open>wrapBytes\<close> is within 255 bytes: the
  empty-return branch of \<open>wrapBytes\<close> is never taken there, and the output is the
  concatenation of the well-formed frames \<open>[1, len, checksum, 2, ...packet, 3]\<close>, all of whose
  elements are bytes.
\<close>

theorem packets_fit_wrapBytes:
  "logical_packets frames pp colors = Inr ps \<longrightarrow>
     (\<forall>p\<in>set ps.
        (\<exists>k. length p = 1 + 3 * k) \<and> length p \<le> 253 \<and>
        length p \<le> MESSAGE_BODY_MAX_LENGTH \<and> bytes p \<and>
        wrapBytes p \<noteq> [] \<and>
        wrapBytes p = [1, int (length p), checksum p, 2] @ p @ [3]) \<and>
     (\<exists>out. getBluetoothPacket frames pp colors = Inr out \<and>
        map uint out = concat (map (\<lambda>p. [1, int (length p), checksum p, 2] @ p @ [3]) ps))"
proof
  assume lp: "logical_packets frames pp colors = Inr ps"
  then obtain res tmp where inv: "splitter_inv (res, tmp)"
    and ps: "ps = set_role_markers (res @ [tmp])"
    by (rule logical_packets_Inr)
  have each: "length p mod 3 = 1 \<and> length p \<le> 253 \<and> bytes p" if "p \<in> set ps" for p
  proof -
    from that obtain i where "i < length ps" "p = ps ! i" by (auto simp: in_set_conv_nth)
    with final_packets [OF inv ps] show ?thesis by simp
  qed
  have wrap: "wrapBytes p = [1, int (length p), checksum p, 2] @ p @ [3]" "bytes (wrapBytes p)"
    if "p \<in> set ps" for p
    using each [OF that] wrapBytes_fits [of p] by simp_all
  have a: "\<forall>p\<in>set ps.
        (\<exists>k. length p = 1 + 3 * k) \<and> length p \<le> 253 \<and>
        length p \<le> MESSAGE_BODY_MAX_LENGTH \<and> bytes p \<and>
        wrapBytes p \<noteq> [] \<and>
        wrapBytes p = [1, int (length p), checksum p, 2] @ p @ [3]"
  proof
    fix p assume p: "p \<in> set ps"
    from each [OF p] have "length p mod 3 = 1" by simp
    then have "\<exists>k. length p = 1 + 3 * k" by (rule mod3_form)
    moreover have "wrapBytes p \<noteq> []" using wrap(1) [OF p] by simp
    ultimately show "(\<exists>k. length p = 1 + 3 * k) \<and> length p \<le> 253 \<and>
        length p \<le> MESSAGE_BODY_MAX_LENGTH \<and> bytes p \<and>
        wrapBytes p \<noteq> [] \<and>
        wrapBytes p = [1, int (length p), checksum p, 2] @ p @ [3]"
      using each [OF p] wrap(1) [OF p] by (simp add: MESSAGE_BODY_MAX_LENGTH_def)
  qed
  have m: "map wrapBytes ps = map (\<lambda>p. [1, int (length p), checksum p, 2] @ p @ [3]) ps"
    using wrap(1) by (intro map_cong) simp_all
  have "list_all bytes (map wrapBytes ps)"
    using wrap(2) by (simp add: list_all_iff)
  then have "bytes (concat (map wrapBytes ps))" by (rule bytes_concat)
  then have "map uint (Uint8Array_from (concat (map wrapBytes ps))) = concat (map wrapBytes ps)"
    by (rule uint_Uint8Array_from)
  moreover have "getBluetoothPacket frames pp colors = Inr (Uint8Array_from (concat (map wrapBytes ps)))"
    by (simp add: getBluetoothPacket_def lp)
  ultimately have b: "\<exists>out. getBluetoothPacket frames pp colors = Inr out \<and>
        map uint out = concat (map (\<lambda>p. [1, int (length p), checksum p, 2] @ p @ [3]) ps)"
    by (simp add: m)
  from a b show "(\<forall>p\<in>set ps.
        (\<exists>k. length p = 1 + 3 * k) \<and> length p \<le> 253 \<and>
        length p \<le> MESSAGE_BODY_MAX_LENGTH \<and> bytes p \<and>
        wrapBytes p \<noteq> [] \<and>
        wrapBytes p = [1, int (length p), checksum p, 2] @ p @ [3]) \<and>
     (\<exists>out. getBluetoothPacket frames pp colors = Inr out \<and>
        map uint out = concat (map (\<lambda>p. [1, int (length p), checksum p, 2] @ p @ [3]) ps))"
    by (rule conjI)
qed

theorem packets_fit_wrapBytes_witness:
  "logical_packets (concat (replicate 85 ''p1rFF0000'')) [''1'' \<mapsto> Fin 1024] Map.empty =
     Inr [82 # concat (replicate 84 [0, 4, 224]), [83, 0, 4, 224]] \<and>
   length (82 # concat (replicate 84 [0, 4, 224 :: int])) \<le> 253 \<and>
   wrapBytes (82 # concat (replicate 84 [0, 4, 224])) \<noteq> [] \<and>
   wrapBytes [83, 0, 4, 224] = [1, 4, checksum [83, 0, 4, 224], 2, 83, 0, 4, 224, 3]"
proof -
  let ?ps = "[82 # concat (replicate 84 [0, 4, 224]), [83, 0, 4, 224 :: int]]"
  have lp: "logical_packets (concat (replicate 85 ''p1rFF0000'')) [''1'' \<mapsto> Fin 1024] Map.empty = Inr ?ps"
    by code_simp
  note t = packets_fit_wrapBytes [of "concat (replicate 85 ''p1rFF0000'')" "[''1'' \<mapsto> Fin 1024]"
      Map.empty ?ps, rule_format, OF lp, THEN conjunct1, rule_format]
  have "length (82 # concat (replicate 84 [0, 4, 224 :: int])) \<le> 253 \<and>
        wrapBytes (82 # concat (replicate 84 [0, 4, 224])) \<noteq> []"
    using t [of "82 # concat (replicate 84 [0, 4, 224])"] by simp
  moreover have "wrapBytes [83, 0, 4, 224] = [1, 4, checksum [83, 0, 4, 224], 2, 83, 0, 4, 224, 3]"
    using t [of "[83, 0, 4, 224]"] by simp
  ultimately show ?thesis using lp by simp
qed

subsection \<open>Marker finalization\<close>

text \<open>A role that names a property of \<open>Object.prototype\<close> reads a function from the
  \<open>{}\<close> passed as \<open>colors\<close>, and encoding that pair throws.\<close>

lemma inherited_role_throws:
  "color_or_role Map.empty (Some ''valueOf'') = Inherited \<and>
   \<not> colored Map.empty ''p1rvalueOf'' \<and>
   getBluetoothPacket ''p1rvalueOf'' [''1'' \<mapsto> Fin 1024] Map.empty = Inl TypeError"
  by code_simp

lemma single_packet:
  assumes "splitter_inv (res, tmp)"
    "252 * length res + length tmp = 1 + 3 * n" "3 * n \<le> 252"
  shows "res = []" "length tmp = 1 + 3 * n"
proof -
  show "res = []"
  proof (rule ccontr)
    assume ne: "res \<noteq> []"
    then have "4 \<le> length tmp" using assms(1) by (simp add: splitter_inv_def)
    moreover have "1 \<le> length res" using ne by (cases res) simp_all
    ultimately show False using assms(2,3) by simp
  qed
  then show "length tmp = 1 + 3 * n" using assms(2) by simp
qed

text \<open>
  C2. When one logical packet is produced its marker (index 0) is \<open>ONLY = 84\<close>; when
  several are produced the first is marked \<open>FIRST = 82\<close>, the last \<open>LAST = 83\<close> and every
  packet between them \<open>MIDDLE = 81\<close>. An input without pairs gives the single packet
  \<open>[84]\<close>, and \<open>N\<close> pairs with \<open>3 * N \<le> 252\<close> give exactly one packet, marked \<open>ONLY\<close>.
  Packets are produced whenever every pair has a colour string to encode.
\<close>

theorem role_marker_finalization:
  "(logical_packets frames pp colors = Inr ps \<longrightarrow>
      ps \<noteq> [] \<and>
      (\<forall>i. i < length ps \<longrightarrow> ps ! i \<noteq> []) \<and>
      (length ps = 1 \<longrightarrow> ps ! 0 ! 0 = PACKET_ONLY) \<and>
      (length ps > 1 \<longrightarrow>
         ps ! 0 ! 0 = PACKET_FIRST \<and>
         ps ! (length ps - 1) ! 0 = PACKET_LAST \<and>
         (\<forall>i. 0 < i \<and> i < length ps - 1 \<longrightarrow> ps ! i ! 0 = PACKET_MIDDLE)) \<and>
      (3 * length (pairs frames) \<le> 252 \<longrightarrow>
         length ps = 1 \<and> ps ! 0 ! 0 = PACKET_ONLY \<and>
         length (ps ! 0) = 1 + 3 * length (pairs frames))) \<and>
   (pairs frames = [] \<longrightarrow> logical_packets frames pp colors = Inr [[PACKET_ONLY]]) \<and>
   (colored colors frames \<longrightarrow> (\<exists>ps. logical_packets frames pp colors = Inr ps)) \<and>
   PACKET_ONLY = 84 \<and> PACKET_FIRST = 82 \<and> PACKET_LAST = 83 \<and> PACKET_MIDDLE = 81"
proof (intro conjI impI allI)
  assume lp: "logical_packets frames pp colors = Inr ps"
  then obtain res tmp where inv: "splitter_inv (res, tmp)"
    and cnt: "252 * length res + length tmp = 1 + 3 * length (pairs frames)"
    and ps: "ps = set_role_markers (res @ [tmp])"
    by (rule logical_packets_Inr)
  note fp = final_packets [OF inv ps]
  have len: "length ps = length res + 1" by (simp add: ps set_role_markers_length)
  then show "ps \<noteq> []" by auto
  show "ps ! i \<noteq> []" if "i < length ps" for i using fp [OF that] by simp
  show "ps ! 0 ! 0 = PACKET_ONLY" if "length ps = 1"
  proof -
    from that have "0 < length ps" by arith
    from fp [OF this] that show ?thesis by simp
  qed
  show "ps ! 0 ! 0 = PACKET_FIRST" if "1 < length ps"
  proof -
    from that have "0 < length ps" by arith
    from fp [OF this] that show ?thesis by simp
  qed
  show "ps ! (length ps - 1) ! 0 = PACKET_LAST" if "1 < length ps"
  proof -
    from that have "length ps - 1 < length ps" by arith
    from fp [OF this] that show ?thesis by simp
  qed
  show "ps ! i ! 0 = PACKET_MIDDLE" if "1 < length ps" "0 < i \<and> i < length ps - 1" for i
  proof -
    from that have "i < length ps" by arith
    from fp [OF this] that show ?thesis by simp
  qed
  {
    assume n: "3 * length (pairs frames) \<le> 252"
    note sp = single_packet [OF inv cnt n]
    show l1: "length ps = 1" using sp len by simp
    from l1 have "0 < length ps" by arith
    from fp [OF this] l1 show "ps ! 0 ! 0 = PACKET_ONLY" by simp
    have "set_first tmp PACKET_ONLY = PACKET_ONLY # tl tmp"
      using inv by (simp add: set_first_nonempty splitter_inv_def)
    moreover have "tmp \<noteq> []" using inv by (simp add: splitter_inv_def)
    ultimately show "length (ps ! 0) = 1 + 3 * length (pairs frames)"
      using sp by (simp add: ps set_role_markers_def)
  }
next
  assume "pairs frames = []"
  then show "logical_packets frames pp colors = Inr [[PACKET_ONLY]]"
    by (rule logical_packets_zero)
next
  assume "colored colors frames"
  then show "\<exists>ps. logical_packets frames pp colors = Inr ps"
    by (rule logical_packets_total)
qed (simp_all add: PACKET_ONLY_def PACKET_FIRST_def PACKET_LAST_def PACKET_MIDDLE_def)

theorem role_marker_finalization_witness:
  "logical_packets ''p1rFF0000'' [''1'' \<mapsto> Fin 1024] Map.empty = Inr [[84, 0, 4, 224]] \<and>
   3 * length (pairs ''p1rFF0000'') \<le> 252 \<and>
   pairs '''' = [] \<and> logical_packets '''' Map.empty Map.empty = Inr [[84]] \<and>
   colored Map.empty (concat (replicate 169 ''pr'')) \<and>
   logical_packets (concat (replicate 169 ''pr'')) Map.empty Map.empty =
     Inr [82 # replicate 252 0, 81 # replicate 252 0, [83, 0, 0, 0]] \<and>
   [82 # replicate 252 0, 81 # replicate 252 0, [83, 0, 0, 0 :: int]] ! 1 ! 0 = PACKET_MIDDLE"
proof -
  let ?big = "concat (replicate 169 ''pr'')"
  let ?ps = "[82 # replicate 252 0, 81 # replicate 252 0, [83, 0, 0, 0 :: int]]"
  have one: "logical_packets ''p1rFF0000'' [''1'' \<mapsto> Fin 1024] Map.empty = Inr [[84, 0, 4, 224]]"
    by code_simp
  have few: "3 * length (pairs ''p1rFF0000'') \<le> 252" by code_simp
  have none: "pairs '''' = []" by code_simp
  have col: "colored Map.empty ?big" by code_simp
  have big: "logical_packets ?big Map.empty Map.empty = Inr ?ps" by code_simp
  have "length [[84, 0, 4, 224 :: int]] = 1 \<and> [[84, 0, 4, 224 :: int]] ! 0 ! 0 = PACKET_ONLY"
    using role_marker_finalization [of "''p1rFF0000''" "[''1'' \<mapsto> Fin 1024]" Map.empty
        "[[84, 0, 4, 224]]"] one few by blast
  moreover have "logical_packets '''' Map.empty Map.empty = Inr [[PACKET_ONLY]]"
    using role_marker_finalization [of "''''" Map.empty Map.empty] none by blast
  moreover have "\<exists>ps. logical_packets ?big Map.empty Map.empty = Inr ps"
    using role_marker_finalization [of ?big Map.empty Map.empty] col by blast
  moreover have "length ?ps > 1" by simp
  then have "0 < (1 :: nat) \<and> (1 :: nat) < length ?ps - 1 \<longrightarrow> ?ps ! 1 ! 0 = PACKET_MIDDLE"
    using role_marker_finalization [of ?big Map.empty Map.empty ?ps] big by blast
  then have "?ps ! 1 ! 0 = PACKET_MIDDLE" by simp
  ultimately show ?thesis using one few none col big by (simp add: PACKET_ONLY_def)
qed

subsection \<open>The splitting threshold\<close>

text \<open>
  C1 as stated: before a triple is appended, the buffer is closed if its length plus 3
  exceeds \<open>MESSAGE_BODY_MAX_LENGTH - 3 = 252\<close>. The code compares with
  \<open>MESSAGE_BODY_MAX_LENGTH = 255\<close>: after 83 pairs the buffer holds 250 bytes, 250 + 3
  exceeds 252, and the 84th triple is still appended to the same buffer, nothing being pushed
  to the result; 84 pairs end up in one packet of 253 bytes.
\<close>

theorem splitter_threshold_252_counterexample:
  "forEach (frame_step [''1'' \<mapsto> Fin 1024] Map.empty) ([], [PACKET_MIDDLE])
       (replicate 83 ''1rFF0000'') = Inr ([], 81 # concat (replicate 83 [0, 4, 224])) \<and>
   length (81 # concat (replicate 83 [0, 4, 224 :: int])) + 3 > MESSAGE_BODY_MAX_LENGTH - 3 \<and>
   frame_step [''1'' \<mapsto> Fin 1024] Map.empty ([], 81 # concat (replicate 83 [0, 4, 224]))
       ''1rFF0000'' = Inr ([], 81 # concat (replicate 84 [0, 4, 224])) \<and>
   logical_packets (concat (replicate 84 ''p1rFF0000'')) [''1'' \<mapsto> Fin 1024] Map.empty =
     Inr [84 # concat (replicate 84 [0, 4, 224])]"
proof (intro conjI)
  show "forEach (frame_step [''1'' \<mapsto> Fin 1024] Map.empty) ([], [PACKET_MIDDLE])
       (replicate 83 ''1rFF0000'') = Inr ([], 81 # concat (replicate 83 [0, 4, 224]))"
    by code_simp
  show "length (81 # concat (replicate 83 [0, 4, 224 :: int])) + 3 > MESSAGE_BODY_MAX_LENGTH - 3"
    by code_simp
  show "frame_step [''1'' \<mapsto> Fin 1024] Map.empty ([], 81 # concat (replicate 83 [0, 4, 224]))
       ''1rFF0000'' = Inr ([], 81 # concat (replicate 84 [0, 4, 224]))"
    by code_simp
  show "logical_packets (concat (replicate 84 ''p1rFF0000'')) [''1'' \<mapsto> Fin 1024] Map.empty =
     Inr [84 # concat (replicate 84 [0, 4, 224])]"
    by code_simp
qed

text \<open>
  C1, amended. Before each triple is appended, the buffer is closed (pushed to the result)
  and a fresh buffer holding only the placeholder marker is started exactly when the buffer
  length plus 3 exceeds \<open>MESSAGE_BODY_MAX_LENGTH = 255\<close>; the triple is then appended to the
  current buffer. In every state the loop reaches this happens exactly when the buffer
  already holds 253 bytes, the marker and 84 triples.
\<close>

theorem splitter_threshold:
  "(frame \<noteq> [] \<and>
    encodePositionAndColor (Number (property pp (key_of (element (split frame CHR ''r'') 0))))
      (color_or_role colors (element (split frame CHR ''r'') 1)) = Inr triple \<longrightarrow>
      length triple = 3 \<and>
      frame_step pp colors (resultArray, tempArray) frame =
        (if length tempArray + 3 > MESSAGE_BODY_MAX_LENGTH
         then Inr (resultArray @ [tempArray], [PACKET_MIDDLE] @ triple)
         else Inr (resultArray, tempArray @ triple))) \<and>
   (forEach (frame_step pp colors) ([], [PACKET_MIDDLE]) frames = Inr (res, buf) \<longrightarrow>
      (length buf + 3 > MESSAGE_BODY_MAX_LENGTH \<longleftrightarrow> length buf = 253) \<and>
      length buf \<le> 253) \<and>
   MESSAGE_BODY_MAX_LENGTH = 255"
proof (intro conjI impI)
  assume h: "frame \<noteq> [] \<and>
    encodePositionAndColor (Number (property pp (key_of (element (split frame CHR ''r'') 0))))
      (color_or_role colors (element (split frame CHR ''r'') 1)) = Inr triple"
  then show "length triple = 3" using encodePositionAndColor_Inr by blast
  from h show "frame_step pp colors (resultArray, tempArray) frame =
        (if length tempArray + 3 > MESSAGE_BODY_MAX_LENGTH
         then Inr (resultArray @ [tempArray], [PACKET_MIDDLE] @ triple)
         else Inr (resultArray, tempArray @ triple))"
    by (simp add: frame_step_nonempty MESSAGE_BODY_MAX_LENGTH_def)
next
  assume "forEach (frame_step pp colors) ([], [PACKET_MIDDLE]) frames = Inr (res, buf)"
  from forEach_inv [OF this splitter_inv_init]
  have l: "length buf \<le> 253" by (simp add: splitter_inv_def)
  then show "length buf \<le> 253" .
  from l show "(length buf + 3 > MESSAGE_BODY_MAX_LENGTH) = (length buf = 253)"
    by (auto simp: MESSAGE_BODY_MAX_LENGTH_def)
next
  show "MESSAGE_BODY_MAX_LENGTH = 255" by (simp add: MESSAGE_BODY_MAX_LENGTH_def)
qed

theorem splitter_threshold_witness:
  "''1rFF0000'' \<noteq> [] \<and>
   encodePositionAndColor
      (Number (property [''1'' \<mapsto> Fin 1024] (key_of (element (split ''1rFF0000'' CHR ''r'') 0))))
      (color_or_role Map.empty (element (split ''1rFF0000'' CHR ''r'') 1)) = Inr [0, 4, 224] \<and>
   frame_step [''1'' \<mapsto> Fin 1024] Map.empty ([], [81]) ''1rFF0000'' = Inr ([], [81, 0, 4, 224]) \<and>
   frame_step [''1'' \<mapsto> Fin 1024] Map.empty ([], 81 # replicate 252 0) ''1rFF0000'' =
     Inr ([81 # replicate 252 0], [81, 0, 4, 224]) \<and>
   forEach (frame_step [''1'' \<mapsto> Fin 1024] Map.empty) ([], [PACKET_MIDDLE]) [''1rFF0000'']
     = Inr ([], [81, 0, 4, 224]) \<and>
   \<not> length [81, 0, 4, 224 :: int] + 3 > MESSAGE_BODY_MAX_LENGTH"
proof -
  let ?pp = "[''1'' \<mapsto> Fin 1024]"
  have ne: "''1rFF0000'' \<noteq> []" by simp
  have enc: "encodePositionAndColor
      (Number (property ?pp (key_of (element (split ''1rFF0000'' CHR ''r'') 0))))
      (color_or_role Map.empty (element (split ''1rFF0000'' CHR ''r'') 1)) = Inr [0, 4, 224]"
    by code_simp
  have run: "forEach (frame_step ?pp Map.empty) ([], [PACKET_MIDDLE]) [''1rFF0000'']
     = Inr ([], [81, 0, 4, 224])"
    by code_simp
  have a: "frame_step ?pp Map.empty ([], [81]) ''1rFF0000'' =
        (if length [81 :: int] + 3 > MESSAGE_BODY_MAX_LENGTH
         then Inr ([] @ [[81]], [PACKET_MIDDLE] @ [0, 4, 224])
         else Inr ([], [81] @ [0, 4, 224]))"
    using splitter_threshold [of "''1rFF0000''" ?pp Map.empty "[0, 4, 224]" "[]" "[81]"] ne enc
    by blast
  have b: "frame_step ?pp Map.empty ([], 81 # replicate 252 0) ''1rFF0000'' =
        (if length (81 # replicate 252 (0 :: int)) + 3 > MESSAGE_BODY_MAX_LENGTH
         then Inr ([] @ [81 # replicate 252 0], [PACKET_MIDDLE] @ [0, 4, 224])
         else Inr ([], (81 # replicate 252 0) @ [0, 4, 224]))"
    using splitter_threshold [of "''1rFF0000''" ?pp Map.empty "[0, 4, 224]" "[]" "81 # replicate 252 0"]
      ne enc by blast
  have c: "(length [81, 0, 4, 224 :: int] + 3 > MESSAGE_BODY_MAX_LENGTH) = (length [81, 0, 4, 224 :: int] = 253)"
    using splitter_threshold [of _ ?pp Map.empty _ _ _ "[''1rFF0000'']" "[]" "[81, 0, 4, 224]"] run
    by blast
  have m: "MESSAGE_BODY_MAX_LENGTH = 255"
    using splitter_threshold [of "[]" Map.empty Map.empty] by blast
  show ?thesis using ne enc run a b c by (simp add: m PACKET_MIDDLE_def)
qed

subsection \<open>Exceptions and the pipeline without pairs\<close>

lemma checksum_84: "checksum [84] = 171"
  by (simp add: checksum_eq)

lemma getBluetoothPacket_zero:
  assumes "pairs frames = []"
  shows "getBluetoothPacket frames pp colors = Inr [1, 1, 171, 2, 84, 3]"
  by (simp add: getBluetoothPacket_def logical_packets_zero [OF assms] wrapBytes_def
      MESSAGE_BODY_MAX_LENGTH_def PACKET_ONLY_def checksum_84 Uint8Array_from_def)

lemma splitMessages_short:
  assumes "0 < length buffer" "length buffer \<le> 20"
  shows "splitMessages buffer = Inr [buffer]"
  using assms
  by (simp add: splitMessages_def splitEvery_def MAX_BLUETOOTH_MESSAGE_SIZE_def
      splitEvery_loop_unfold)

text \<open>
  C8 as stated ends with one transport unit of 8 bytes. The frame of the packet \<open>[84]\<close> is
  \<open>[1, 1, 171, 2, 84, 3]\<close>, the body and five bytes of wrapping, so the only transport unit
  has 6 bytes.
\<close>

theorem zero_pairs_unit_8_counterexample:
  "getBluetoothPacket '''' Map.empty Map.empty = Inr [1, 1, 171, 2, 84, 3] \<and>
   splitMessages [1, 1, 171, 2, 84, 3] = Inr [[1, 1, 171, 2, 84, 3]] \<and>
   length [1, 1, 171, 2, 84, 3 :: 8 word] \<noteq> 8"
proof (intro conjI)
  show "getBluetoothPacket '''' Map.empty Map.empty = Inr [1, 1, 171, 2, 84, 3]"
    by code_simp
  show "splitMessages [1, 1, 171, 2, 84, 3] = Inr [[1, 1, 171, 2, 84, 3]]"
    by code_simp
  show "length [1, 1, 171, 2, 84, 3 :: 8 word] \<noteq> 8"
    by simp
qed

text \<open>
  C8, amended. An input without pairs gives the one logical packet \<open>[84]\<close> (\<open>ONLY\<close>), whose
  wrapped frame is \<open>[1, 1, checksum([84]), 2, 84, 3]\<close> with checksum 171, and chunking that
  stream with chunk size 20 gives exactly one transport unit, of 6 bytes.
\<close>

theorem zero_pairs_pipeline:
  "pairs frames = [] \<longrightarrow>
     logical_packets frames pp colors = Inr [[84]] \<and>
     wrapBytes [84] = [1, 1, checksum [84], 2, 84, 3] \<and>
     checksum [84] = 171 \<and>
     (\<exists>stream. getBluetoothPacket frames pp colors = Inr stream \<and>
        map uint stream = wrapBytes [84] \<and>
        splitMessages stream = Inr [stream] \<and>
        length stream = 6)"
proof
  assume z: "pairs frames = []"
  have w: "wrapBytes [84] = [1, 1, checksum [84], 2, 84, 3]"
    by (simp add: wrapBytes_def MESSAGE_BODY_MAX_LENGTH_def)
  have g: "getBluetoothPacket frames pp colors = Inr [1, 1, 171, 2, 84, 3]"
    using z by (rule getBluetoothPacket_zero)
  have s: "splitMessages [1, 1, 171, 2, 84, 3 :: 8 word] = Inr [[1, 1, 171, 2, 84, 3]]"
    by (rule splitMessages_short) simp_all
  have "getBluetoothPacket frames pp colors = Inr [1, 1, 171, 2, 84, 3] \<and>
        map uint [1, 1, 171, 2, 84, 3 :: 8 word] = wrapBytes [84] \<and>
        splitMessages [1, 1, 171, 2, 84, 3 :: 8 word] = Inr [[1, 1, 171, 2, 84, 3]] \<and>
        length [1, 1, 171, 2, 84, 3 :: 8 word] = 6"
    using g s by (simp add: w checksum_84)
  then have "\<exists>stream. getBluetoothPacket frames pp colors = Inr stream \<and>
        map uint stream = wrapBytes [84] \<and>
        splitMessages stream = Inr [stream] \<and>
        length stream = 6"
    by blast
  moreover have "logical_packets frames pp colors = Inr [[84]]"
    using logical_packets_zero [OF z, of pp colors] by (simp add: PACKET_ONLY_def)
  ultimately show "logical_packets frames pp colors = Inr [[84]] \<and>
     wrapBytes [84] = [1, 1, checksum [84], 2, 84, 3] \<and>
     checksum [84] = 171 \<and>
     (\<exists>stream. getBluetoothPacket frames pp colors = Inr stream \<and>
        map uint stream = wrapBytes [84] \<and>
        splitMessages stream = Inr [stream] \<and>
        length stream = 6)"
    using w checksum_84 by blast
qed

theorem zero_pairs_pipeline_witness:
  "pairs '''' = [] \<and>
   logical_packets '''' Map.empty Map.empty = Inr [[84]] \<and>
   (\<exists>stream. getBluetoothPacket '''' Map.empty Map.empty = Inr stream \<and>
      splitMessages stream = Inr [stream] \<and> length stream = 6)"
proof -
  have z: "pairs '''' = []" by code_simp
  from zero_pairs_pipeline [of "''''" Map.empty Map.empty] z
  show ?thesis by blast
qed

text \<open>
  C9 as stated: every validation failure is reported as an explicit error and malformed
  input is never silently encoded. The code has no validation of positions or colours: a
  pair whose position id is absent from the lookup and whose colour is not hexadecimal is
  encoded as three zero bytes, and a body of 256 bytes makes \<open>wrapBytes\<close> return the empty
  sequence rather than an error.
\<close>

theorem silent_encoding_counterexample:
  "getBluetoothPacket ''p5rzzzzzz'' Map.empty Map.empty = Inr [1, 4, 171, 2, 84, 0, 0, 0, 3] \<and>
   wrapBytes (replicate 256 0) = []"
proof (intro conjI)
  show "getBluetoothPacket ''p5rzzzzzz'' Map.empty Map.empty = Inr [1, 4, 171, 2, 84, 0, 0, 0, 3]"
    by code_simp
  show "wrapBytes (replicate 256 0) = []"
    by code_simp
qed

text \<open>
  C9, amended. Of the validation failures only a non-positive chunk size is reported as an
  explicit error: \<open>splitEvery\<close> throws. \<open>wrapBytes\<close> answers a body longer than 255 bytes with
  the empty sequence. A position id absent from the lookup is encoded as the position bytes
  \<open>[0, 0]\<close>. \<open>encodeColor\<close> returns a byte for every colour string, and 0 when none of the
  three components parses as hexadecimal.
\<close>

theorem error_reporting:
  "(n \<le> 0 \<longrightarrow>
      splitEvery n list = Inl (Error ''First argument to splitEvery must be a positive integer'')) \<and>
   (length body > 255 \<longrightarrow> wrapBytes body = []) \<and>
   (pp placement = None \<longrightarrow> encodePosition (Number (property pp placement)) = [0, 0]) \<and>
   (\<exists>c. encodeColor (Val color) = Inr c \<and> 0 \<le> c \<and> c \<le> 255) \<and>
   (parseInt16 (substring color 0 2) = NaN \<and> parseInt16 (substring color 2 4) = NaN \<and>
    parseInt16 (substring color 4 6) = NaN \<longrightarrow> encodeColor (Val color) = Inr 0)"
proof (intro conjI impI)
  assume "n \<le> 0"
  then show "splitEvery n list = Inl (Error ''First argument to splitEvery must be a positive integer'')"
    by (simp add: splitEvery_def)
next
  assume "255 < length body"
  then show "wrapBytes body = []" by (simp add: wrapBytes_def MESSAGE_BODY_MAX_LENGTH_def)
next
  assume "pp placement = None"
  then have "Number (property pp placement) = NaN"
    by (simp add: property_def)
  then show "encodePosition (Number (property pp placement)) = [0, 0]"
    by (simp add: encodePosition_def)
next
  show "\<exists>c. encodeColor (Val color) = Inr c \<and> 0 \<le> c \<and> c \<le> 255"
    by (rule encodeColor_byte)
next
  assume "parseInt16 (substring color 0 2) = NaN \<and> parseInt16 (substring color 2 4) = NaN \<and>
    parseInt16 (substring color 4 6) = NaN"
  then show "encodeColor (Val color) = Inr 0" by simp
qed

theorem error_reporting_witness:
  "(0 :: int) \<le> 0 \<and>
   splitEvery 0 [1, 2, 3 :: nat] = Inl (Error ''First argument to splitEvery must be a positive integer'') \<and>
   length (replicate 256 (0 :: int)) > 255 \<and> wrapBytes (replicate 256 0) = [] \<and>
   [''1'' \<mapsto> Fin 1024] ''5'' = None \<and>
   encodePosition (Number (property [''1'' \<mapsto> Fin 1024] ''5'')) = [0, 0] \<and>
   parseInt16 (substring ''zzzzzz'' 0 2) = NaN \<and> parseInt16 (substring ''zzzzzz'' 2 4) = NaN \<and>
   parseInt16 (substring ''zzzzzz'' 4 6) = NaN \<and> encodeColor (Val ''zzzzzz'') = Inr 0"
proof -
  have a: "(0 :: int) \<le> 0" and b: "length (replicate 256 (0 :: int)) > 255"
    and c: "[''1'' \<mapsto> Fin 1024] ''5'' = None"
    by simp_all
  have d: "parseInt16 (substring ''zzzzzz'' 0 2) = NaN \<and> parseInt16 (substring ''zzzzzz'' 2 4) = NaN \<and>
    parseInt16 (substring ''zzzzzz'' 4 6) = NaN"
    by code_simp
  note t = error_reporting [of 0 "[1, 2, 3 :: nat]" "replicate 256 0" "[''1'' \<mapsto> Fin 1024]" "''5''"
      "''zzzzzz''"]
  have "splitEvery 0 [1, 2, 3 :: nat] = Inl (Error ''First argument to splitEvery must be a positive integer'')"
    using t a by blast
  moreover have "wrapBytes (replicate 256 0) = []" using t b by blast
  moreover have "encodePosition (Number (property [''1'' \<mapsto> Fin 1024] ''5'')) = [0, 0]"
    using t c by blast
  moreover have "encodeColor (Val ''zzzzzz'') = Inr 0" using t d by blast
  ultimately show ?thesis using a b c d by blast
qed

end
